theory Spec2Isabelle
  imports Main
begin

section \<open>Data model of \<^verbatim>\<open>include/xswl/signals.hpp\<close>\<close>

text \<open>
  The header is embedded for the instance \<^verbatim>\<open>signal_t<>\<close> (empty argument pack): the
  argument-arity adapters only select which leading arguments reach a callable and play
  no part in scheduling or liveness.

  Every \<^verbatim>\<open>shared_ptr\<close>/\<^verbatim>\<open>weak_ptr\<close> target lives in a heap indexed by an address.
  A heap cell keeps its contents for ever; the \<^verbatim>\<open>use_count\<close> of its control block says
  whether the object still exists, so \<^verbatim>\<open>weak_ptr::lock\<close> succeeds exactly when the
  count is positive. Addresses are handed out by counters and never reused, hence the
  address of a slot is also its registration sequence number.

  The operations are modelled for one thread of control (including re-entrant calls made
  from inside callbacks); a mutex-protected section or an atomic operation is one
  function application.
\<close>

type_synonym addr = nat

text \<open>
  A \<^verbatim>\<open>shared_ptr<Obj>\<close> value has two parts: the stored pointer, which \<^verbatim>\<open>get()\<close> and
  the conversion to \<^verbatim>\<open>bool\<close> read, and the control block that it shares ownership of
  (\<open>None\<close>: the pointer is empty). \<^verbatim>\<open>make_shared\<close> sets both to the new object; the
  aliasing constructor sets them apart, so a pointer can be empty and not null, or null
  and not empty. A control block is named by the address of the object it owns.
\<close>

record shared_ptr =
  get_ptr :: "addr option"
  ctrl :: "addr option"

definition null_shared :: shared_ptr where
  "null_shared = \<lparr>get_ptr = None, ctrl = None\<rparr>"

text \<open>
  The three kinds of \<^verbatim>\<open>std::function\<close> targets that the connect overloads build: the
  user's callable itself, the wrapper capturing a \<^verbatim>\<open>weak_ptr<Obj>\<close> (given by its
  control block, \<open>None\<close> when the weak pointer is empty) and a member function, and the
  wrapper capturing a raw \<^verbatim>\<open>Obj*\<close> and a member function. The second component names
  the user code to run.
\<close>

datatype callee = Plain nat | SharedMember "addr option" nat | RawMember addr nat

text \<open>\<^verbatim>\<open>struct slot\<close>; \<^verbatim>\<open>int priority\<close> is only ever stored and compared.\<close>

record slot =
  func :: callee
  priority :: int
  blocked :: bool
  pending_removal :: bool
  executed :: bool
  single_shot :: bool
  tracked :: "addr option"

text \<open>
  \<^verbatim>\<open>class signal_impl\<close>, its members \<^verbatim>\<open>slots_\<close>, \<^verbatim>\<open>tags_\<close>, \<^verbatim>\<open>dirty_\<close> written
  without the trailing underscore. The vectors hold non-null shared pointers only (the code
  pushes nothing but results of \<^verbatim>\<open>make_shared\<close>), so an element is an address.
\<close>

record signal_impl =
  slots :: "addr list"
  tags :: "addr list"
  dirty :: bool

text \<open>\<^verbatim>\<open>class connection_t\<close>: the weak pointers \<^verbatim>\<open>impl_\<close> and \<^verbatim>\<open>slot_\<close>, \<open>None\<close> when empty.\<close>

record connection_t =
  conn_impl :: "addr option"
  conn_slot :: "addr option"

text \<open>
  Observation history. It is written by the model and never read by any operation:
  \<open>Invoked s\<close> is appended when the emission loop calls the function of slot \<open>s\<close>,
  \<open>Disconnected s\<close> when \<^verbatim>\<open>connection_t::disconnect\<close> reaches \<^verbatim>\<open>disconnect_slot\<close>
  for slot \<open>s\<close>.
\<close>

datatype event = Invoked addr | Disconnected addr

record world =
  sigs :: "nat \<Rightarrow> addr option"
  impls :: "addr \<Rightarrow> signal_impl"
  impl_refs :: "addr \<Rightarrow> nat"
  next_impl :: addr
  slot_heap :: "addr \<Rightarrow> slot"
  slot_refs :: "addr \<Rightarrow> nat"
  next_slot :: addr
  tag_heap :: "addr \<Rightarrow> string"
  obj_refs :: "addr \<Rightarrow> nat"
  next_obj :: addr
  owners :: "nat \<Rightarrow> shared_ptr"
  conns :: "nat \<Rightarrow> connection_t"
  history :: "event list"

text \<open>
  \<open>sigs w g\<close> is the member \<^verbatim>\<open>impl_\<close> of the \<^verbatim>\<open>signal_t\<close> object \<open>g\<close> (\<open>None\<close>: null),
  \<open>owners w v\<close> the user's \<^verbatim>\<open>shared_ptr<Obj>\<close> variable \<open>v\<close>, \<open>conns w c\<close> the user's
  connection handle variable \<open>c\<close>. \<open>tag_heap\<close> holds the \<^verbatim>\<open>name\<close> of each
  \<^verbatim>\<open>connection_tag\<close>; tags and owners are the targets of \<^verbatim>\<open>weak_ptr<void> tracked\<close> and
  share \<open>obj_refs\<close>.
\<close>

definition empty_slot :: slot where
  "empty_slot = \<lparr>func = Plain 0, priority = 0, blocked = False, pending_removal = False,
     executed = False, single_shot = False, tracked = None\<rparr>"

definition empty_impl :: signal_impl where
  "empty_impl = \<lparr>slots = [], tags = [], dirty = False\<rparr>"

definition empty_connection :: connection_t where
  "empty_connection = \<lparr>conn_impl = None, conn_slot = None\<rparr>"

definition empty_world :: world where
  "empty_world = \<lparr>sigs = (\<lambda>_. None), impls = (\<lambda>_. empty_impl), impl_refs = (\<lambda>_. 0),
     next_impl = 0, slot_heap = (\<lambda>_. empty_slot), slot_refs = (\<lambda>_. 0), next_slot = 0,
     tag_heap = (\<lambda>_. []), obj_refs = (\<lambda>_. 0), next_obj = 0, owners = (\<lambda>_. null_shared),
     conns = (\<lambda>_. empty_connection), history = []\<rparr>"

section \<open>Reference counts\<close>

primrec retain_all :: "addr list \<Rightarrow> (addr \<Rightarrow> nat) \<Rightarrow> (addr \<Rightarrow> nat)" where
  "retain_all [] r = r"
| "retain_all (x # xs) r = retain_all xs (r(x := Suc (r x)))"

primrec release_all :: "addr list \<Rightarrow> (addr \<Rightarrow> nat) \<Rightarrow> (addr \<Rightarrow> nat)" where
  "release_all [] r = r"
| "release_all (x # xs) r = release_all xs (r(x := r x - 1))"

section \<open>\<^verbatim>\<open>struct slot\<close>\<close>

definition has_tracked_object :: "slot \<Rightarrow> bool" where
  "has_tracked_object sl = (tracked sl \<noteq> None)"

text \<open>\<^verbatim>\<open>tracked.expired()\<close>: an empty weak pointer counts as expired.\<close>

definition tracked_expired :: "world \<Rightarrow> slot \<Rightarrow> bool" where
  "tracked_expired w sl = (case tracked sl of None \<Rightarrow> True | Some a \<Rightarrow> obj_refs w a = 0)"

text \<open>\<^verbatim>\<open>tracked.lock()\<close>.\<close>

definition tracked_lock :: "world \<Rightarrow> slot \<Rightarrow> addr option" where
  "tracked_lock w sl =
     (case tracked sl of None \<Rightarrow> None
      | Some a \<Rightarrow> if obj_refs w a = 0 then None else Some a)"

definition is_callable :: "world \<Rightarrow> slot \<Rightarrow> bool" where
  "is_callable w sl =
     (if blocked sl then False
      else if pending_removal sl then False
      else if has_tracked_object sl \<and> tracked_expired w sl then False
      else True)"

text \<open>
  \<^verbatim>\<open>executed.compare_exchange_strong(expected = false, true)\<close> stores \<open>True\<close> and
  succeeds exactly when the flag held \<open>False\<close>.
\<close>

definition try_acquire_execution :: "slot \<Rightarrow> bool \<times> slot" where
  "try_acquire_execution sl =
     (if \<not> single_shot sl then (True, sl)
      else if executed sl = False then (True, sl\<lparr>executed := True\<rparr>)
      else (False, sl))"

section \<open>\<^verbatim>\<open>class signal_impl\<close>\<close>

definition store_pending :: "addr \<Rightarrow> world \<Rightarrow> world" where
  "store_pending s w =
     w\<lparr>slot_heap := (slot_heap w)(s := (slot_heap w s)\<lparr>pending_removal := True\<rparr>)\<rparr>"

definition set_dirty :: "addr \<Rightarrow> bool \<Rightarrow> world \<Rightarrow> world" where
  "set_dirty a b w = w\<lparr>impls := (impls w)(a := (impls w a)\<lparr>dirty := b\<rparr>)\<rparr>"

definition disconnect_slot :: "addr \<Rightarrow> addr \<Rightarrow> world \<Rightarrow> world" where
  "disconnect_slot a s w = set_dirty a True (store_pending s w)"

text \<open>
  \<^verbatim>\<open>cleanup_slots_locked\<close>: \<^verbatim>\<open>remove_if\<close> keeps the records that are not flagged, in
  order; \<^verbatim>\<open>erase\<close> destroys the shared pointers of the others.
\<close>

definition cleanup_slots_locked :: "addr \<Rightarrow> world \<Rightarrow> world" where
  "cleanup_slots_locked a w =
     (let im = impls w a;
          keep = filter (\<lambda>s. \<not> pending_removal (slot_heap w s)) (slots im);
          gone = filter (\<lambda>s. pending_removal (slot_heap w s)) (slots im)
      in w\<lparr>impls := (impls w)(a := im\<lparr>slots := keep\<rparr>),
           slot_refs := release_all gone (slot_refs w)\<rparr>)"

section \<open>\<^verbatim>\<open>std::stable_sort\<close>\<close>

text \<open>
  The standard's contract for \<^verbatim>\<open>stable_sort(first, last, comp)\<close>: the range is sorted
  with respect to the comparator and equivalent elements keep their relative order. Insertion
  from the right, past the elements that the comparator puts strictly first, computes it.
\<close>

fun insert_by :: "('a \<Rightarrow> 'a \<Rightarrow> bool) \<Rightarrow> 'a \<Rightarrow> 'a list \<Rightarrow> 'a list" where
  "insert_by lt x [] = [x]"
| "insert_by lt x (y # ys) = (if lt y x then y # insert_by lt x ys else x # y # ys)"

definition stable_sort :: "('a \<Rightarrow> 'a \<Rightarrow> bool) \<Rightarrow> 'a list \<Rightarrow> 'a list" where
  "stable_sort lt xs = foldr (insert_by lt) xs []"

text \<open>The comparator of the emission: \<^verbatim>\<open>a->priority > b->priority\<close>.\<close>

definition higher_priority :: "world \<Rightarrow> addr \<Rightarrow> addr \<Rightarrow> bool" where
  "higher_priority w a b = (priority (slot_heap w a) > priority (slot_heap w b))"

section \<open>\<^verbatim>\<open>class connection_t\<close>\<close>

definition lock_impl :: "world \<Rightarrow> connection_t \<Rightarrow> addr option" where
  "lock_impl w c =
     (case conn_impl c of None \<Rightarrow> None
      | Some a \<Rightarrow> if impl_refs w a = 0 then None else Some a)"

definition lock_slot :: "world \<Rightarrow> connection_t \<Rightarrow> addr option" where
  "lock_slot w c =
     (case conn_slot c of None \<Rightarrow> None
      | Some s \<Rightarrow> if slot_refs w s = 0 then None else Some s)"

definition is_connected :: "world \<Rightarrow> connection_t \<Rightarrow> bool" where
  "is_connected w c =
     (case lock_slot w c of None \<Rightarrow> False
      | Some s \<Rightarrow> \<not> pending_removal (slot_heap w s))"

definition disconnect :: "connection_t \<Rightarrow> world \<Rightarrow> world" where
  "disconnect c w =
     (case lock_impl w c of None \<Rightarrow> w
      | Some a \<Rightarrow>
          (case lock_slot w c of None \<Rightarrow> w
           | Some s \<Rightarrow>
               (disconnect_slot a s w)\<lparr>history := history w @ [Disconnected s]\<rparr>))"

definition block :: "connection_t \<Rightarrow> bool \<Rightarrow> world \<Rightarrow> world" where
  "block c b w =
     (case lock_slot w c of None \<Rightarrow> w
      | Some s \<Rightarrow> w\<lparr>slot_heap := (slot_heap w)(s := (slot_heap w s)\<lparr>blocked := b\<rparr>)\<rparr>)"

definition unblock :: "connection_t \<Rightarrow> world \<Rightarrow> world" where
  "unblock c w = block c False w"

definition is_blocked :: "world \<Rightarrow> connection_t \<Rightarrow> bool" where
  "is_blocked w c =
     (case lock_slot w c of None \<Rightarrow> False | Some s \<Rightarrow> blocked (slot_heap w s))"

definition reset :: "connection_t \<Rightarrow> connection_t" where
  "reset c = c\<lparr>conn_impl := None, conn_slot := None\<rparr>"

section \<open>\<^verbatim>\<open>class signal_t\<close>: registration\<close>

text \<open>
  \<^verbatim>\<open>connect_impl\<close>; \<open>g\<close> is the signal object the member function is called on. The
  local shared pointer \<^verbatim>\<open>s\<close> is gone at the return, the vector keeps one reference.
\<close>

definition connect_impl ::
  "nat \<Rightarrow> callee \<Rightarrow> int \<Rightarrow> bool \<Rightarrow> addr option \<Rightarrow> world \<Rightarrow> connection_t \<times> world" where
  "connect_impl g f p ss t w =
     (case sigs w g of None \<Rightarrow> (empty_connection, w)
      | Some a \<Rightarrow>
          let s = next_slot w;
              sl = \<lparr>func = f, priority = p, blocked = False, pending_removal = False,
                    executed = False, single_shot = ss, tracked = t\<rparr>
          in (\<lparr>conn_impl = Some a, conn_slot = Some s\<rparr>,
              w\<lparr>slot_heap := (slot_heap w)(s := sl),
                slot_refs := (slot_refs w)(s := 1),
                next_slot := Suc s,
                impls := (impls w)(a := (impls w a)\<lparr>slots := slots (impls w a) @ [s],
                                                    dirty := True\<rparr>)\<rparr>))"

definition connect :: "nat \<Rightarrow> nat \<Rightarrow> int \<Rightarrow> world \<Rightarrow> connection_t \<times> world" where
  "connect g f p w = connect_impl g (Plain f) p False None w"

definition connect_once :: "nat \<Rightarrow> nat \<Rightarrow> int \<Rightarrow> world \<Rightarrow> connection_t \<times> world" where
  "connect_once g f p w = connect_impl g (Plain f) p True None w"

text \<open>
  \<^verbatim>\<open>connect(const shared_ptr<Obj>&, MemFn, int)\<close>. The test \<^verbatim>\<open>if(!obj)\<close> reads the
  stored pointer only. \<^verbatim>\<open>connect_member_with_arity\<close> then builds \<^verbatim>\<open>weak_obj\<close> and
  \<^verbatim>\<open>tracked\<close> from \<^verbatim>\<open>obj\<close>; both share its control block and are empty when
  \<^verbatim>\<open>obj\<close> is.
\<close>

definition connect_shared ::
  "nat \<Rightarrow> shared_ptr \<Rightarrow> nat \<Rightarrow> int \<Rightarrow> world \<Rightarrow> connection_t \<times> world" where
  "connect_shared g obj memfn p w =
     (if get_ptr obj = None then (empty_connection, w)
      else connect_impl g (SharedMember (ctrl obj) memfn) p False (ctrl obj) w)"

text \<open>\<^verbatim>\<open>connect(Obj*, MemFn, int)\<close>; the argument is \<open>None\<close> for a null pointer.\<close>

definition connect_raw ::
  "nat \<Rightarrow> addr option \<Rightarrow> nat \<Rightarrow> int \<Rightarrow> world \<Rightarrow> connection_t \<times> world" where
  "connect_raw g obj memfn p w =
     (case obj of None \<Rightarrow> (empty_connection, w)
      | Some ob \<Rightarrow> connect_impl g (RawMember ob memfn) p False None w)"

text \<open>
  \<^verbatim>\<open>get_or_create_tag\<close>, on the shared state \<open>a\<close> (its only caller has checked
  \<^verbatim>\<open>impl_\<close>). The registry keeps the one lasting reference to a tag.
\<close>

definition get_or_create_tag :: "addr \<Rightarrow> string \<Rightarrow> world \<Rightarrow> addr \<times> world" where
  "get_or_create_tag a nm w =
     (case find (\<lambda>t. tag_heap w t = nm) (tags (impls w a)) of
        Some t \<Rightarrow> (t, w)
      | None \<Rightarrow>
          let t = next_obj w
          in (t, w\<lparr>tag_heap := (tag_heap w)(t := nm),
                   obj_refs := (obj_refs w)(t := 1),
                   next_obj := Suc t,
                   impls := (impls w)(a := (impls w a)\<lparr>tags := tags (impls w a) @ [t]\<rparr>)\<rparr>))"

definition connect_tag ::
  "nat \<Rightarrow> string \<Rightarrow> nat \<Rightarrow> int \<Rightarrow> world \<Rightarrow> connection_t \<times> world" where
  "connect_tag g nm f p w =
     (case sigs w g of None \<Rightarrow> (empty_connection, w)
      | Some a \<Rightarrow>
          (case get_or_create_tag a nm w of
             (t, w1) \<Rightarrow> connect_impl g (Plain f) p False (Some t) w1))"

section \<open>\<^verbatim>\<open>class signal_t\<close>: disconnecting\<close>

text \<open>The loop of \<^verbatim>\<open>disconnect(const std::string&)\<close> over \<^verbatim>\<open>slots_\<close>.\<close>

primrec mark_tagged :: "addr \<Rightarrow> addr list \<Rightarrow> world \<Rightarrow> world" where
  "mark_tagged t [] w = w"
| "mark_tagged t (s # ss) w =
     mark_tagged t ss
       (if tracked_lock w (slot_heap w s) = Some t then store_pending s w else w)"

text \<open>
  \<^verbatim>\<open>disconnect(const std::string&)\<close>. The local \<^verbatim>\<open>tag_ptr\<close> keeps the tag alive during
  the loop; with its destruction at the return the tag loses the reference that the
  registry held.
\<close>

definition disconnect_tag :: "nat \<Rightarrow> string \<Rightarrow> world \<Rightarrow> bool \<times> world" where
  "disconnect_tag g nm w =
     (case sigs w g of None \<Rightarrow> (False, w)
      | Some a \<Rightarrow>
          (case find (\<lambda>t. tag_heap w t = nm) (tags (impls w a)) of
             None \<Rightarrow> (False, w)
           | Some t \<Rightarrow>
               let w1 = w\<lparr>impls := (impls w)(a := (impls w a)\<lparr>tags := remove1 t (tags (impls w a))\<rparr>)\<rparr>;
                   w2 = mark_tagged t (slots (impls w1 a)) w1;
                   w3 = set_dirty a True w2
               in (True, w3\<lparr>obj_refs := (obj_refs w3)(t := obj_refs w3 t - 1)\<rparr>)))"

text \<open>The loop of \<^verbatim>\<open>disconnect_all\<close> over \<^verbatim>\<open>slots_\<close>.\<close>

primrec mark_all :: "addr list \<Rightarrow> world \<Rightarrow> world" where
  "mark_all [] w = w"
| "mark_all (s # ss) w = mark_all ss (store_pending s w)"

definition disconnect_all :: "nat \<Rightarrow> world \<Rightarrow> world" where
  "disconnect_all g w =
     (case sigs w g of None \<Rightarrow> w
      | Some a \<Rightarrow>
          let im = impls w a;
              w1 = mark_all (slots im) w
          in w1\<lparr>impls := (impls w1)(a := \<lparr>slots = [], tags = [], dirty = False\<rparr>),
                slot_refs := release_all (slots im) (slot_refs w1),
                obj_refs := release_all (tags im) (obj_refs w1)\<rparr>)"

definition slot_count :: "world \<Rightarrow> nat \<Rightarrow> nat" where
  "slot_count w g =
     (case sigs w g of None \<Rightarrow> 0
      | Some a \<Rightarrow> length (filter (\<lambda>s. \<not> pending_removal (slot_heap w s)) (slots (impls w a))))"

text \<open>\<^verbatim>\<open>signal_t::empty\<close>.\<close>

definition empty_signal :: "world \<Rightarrow> nat \<Rightarrow> bool" where
  "empty_signal w g = (slot_count w g = 0)"

definition valid :: "world \<Rightarrow> nat \<Rightarrow> bool" where
  "valid w g = (sigs w g \<noteq> None)"

section \<open>\<^verbatim>\<open>class signal_t\<close>: construction, move, destruction\<close>

definition sig_ctor :: "nat \<Rightarrow> world \<Rightarrow> world" where
  "sig_ctor g w =
     (let a = next_impl w
      in w\<lparr>sigs := (sigs w)(g := Some a),
           impls := (impls w)(a := empty_impl),
           impl_refs := (impl_refs w)(a := 1),
           next_impl := Suc a\<rparr>)"

text \<open>
  A shared state has one owner at a time, the signal object holding it; when that owner
  lets go, the state is destroyed. Both callers have run \<^verbatim>\<open>disconnect_all\<close> just
  before, so its vectors are empty then.
\<close>

definition release_impl :: "addr option \<Rightarrow> world \<Rightarrow> world" where
  "release_impl p w =
     (case p of None \<Rightarrow> w
      | Some a \<Rightarrow> w\<lparr>impl_refs := (impl_refs w)(a := impl_refs w a - 1)\<rparr>)"

text \<open>\<^verbatim>\<open>signal_t(signal_t &&other)\<close>: \<open>g'\<close> names the object under construction.\<close>

definition sig_move_ctor :: "nat \<Rightarrow> nat \<Rightarrow> world \<Rightarrow> world" where
  "sig_move_ctor g' other w = w\<lparr>sigs := (sigs w)(other := None, g' := sigs w other)\<rparr>"

text \<open>\<^verbatim>\<open>operator=(signal_t &&other)\<close> on the object \<open>g\<close>.\<close>

definition sig_move_assign :: "nat \<Rightarrow> nat \<Rightarrow> world \<Rightarrow> world" where
  "sig_move_assign g other w =
     (if g \<noteq> other
      then let w1 = disconnect_all g w
           in release_impl (sigs w1 g)
                (w1\<lparr>sigs := (sigs w1)(other := None, g := sigs w1 other)\<rparr>)
      else w)"

text \<open>\<^verbatim>\<open>~signal_t()\<close>, followed by the destruction of the member \<^verbatim>\<open>impl_\<close>.\<close>

definition sig_dtor :: "nat \<Rightarrow> world \<Rightarrow> world" where
  "sig_dtor g w =
     (let w1 = disconnect_all g w
      in release_impl (sigs w1 g) (w1\<lparr>sigs := (sigs w1)(g := None)\<rparr>))"

section \<open>User code\<close>

text \<open>
  What the code around the library (the main program and the bodies of the callables)
  can do to a world: every public operation, on signal objects \<open>g\<close>, handle variables
  \<open>c\<close> and owner variables \<open>v\<close>, and \<^verbatim>\<open>throw\<close>. A connect action stores the returned
  handle in the variable \<open>c\<close>. The body of callable \<open>f\<close> is \<open>P f w\<close>, chosen from the
  world at the moment of the call, so a callable may branch on anything it can observe.
\<close>

datatype action =
    SigCtor nat
  | SigMoveCtor nat nat
  | SigMoveAssign nat nat
  | SigDtor nat
  | Connect nat nat nat int
  | ConnectOnce nat nat nat int
  | ConnectShared nat nat nat nat int
  | ConnectRaw nat nat "addr option" nat int
  | ConnectTag nat nat string nat int
  | DisconnectTag nat string
  | DisconnectAll nat
  | Emit nat
  | ConnDisconnect nat
  | ConnBlock nat bool
  | ConnReset nat
  | OwnerMake nat
  | OwnerRelease nat
  | OwnerAlias nat nat "addr option"
  | Throw

type_synonym program = "nat \<Rightarrow> world \<Rightarrow> action list"

datatype outcome = Normal | Threw

datatype fault = OutOfFuel | NullDeref

type_synonym 'a res = "fault + 'a"

definition store_conn :: "nat \<Rightarrow> connection_t \<times> world \<Rightarrow> world" where
  "store_conn c r = (snd r)\<lparr>conns := (conns (snd r))(c := fst r)\<rparr>"

text \<open>
  On owner variables: \<^verbatim>\<open>v.reset()\<close>, \<^verbatim>\<open>v = std::make_shared<Obj>()\<close>, and
  \<^verbatim>\<open>v = std::shared_ptr<Obj>(u, p)\<close> with the aliasing constructor, which shares the
  control block of \<open>u\<close> and stores the pointer \<open>p\<close>.
\<close>

definition owner_release :: "nat \<Rightarrow> world \<Rightarrow> world" where
  "owner_release v w =
     (case ctrl (owners w v) of
        None \<Rightarrow> w\<lparr>owners := (owners w)(v := null_shared)\<rparr>
      | Some ob \<Rightarrow> w\<lparr>obj_refs := (obj_refs w)(ob := obj_refs w ob - 1),
                      owners := (owners w)(v := null_shared)\<rparr>)"

definition owner_make :: "nat \<Rightarrow> world \<Rightarrow> world" where
  "owner_make v w =
     (let w1 = owner_release v w; ob = next_obj w1
      in w1\<lparr>obj_refs := (obj_refs w1)(ob := 1), next_obj := Suc ob,
            owners := (owners w1)(v := \<lparr>get_ptr = Some ob, ctrl = Some ob\<rparr>)\<rparr>)"

definition owner_alias :: "nat \<Rightarrow> nat \<Rightarrow> addr option \<Rightarrow> world \<Rightarrow> world" where
  "owner_alias v u p w =
     (let cb = ctrl (owners w u);
          w1 = (case cb of None \<Rightarrow> w
                | Some ob \<Rightarrow> w\<lparr>obj_refs := (obj_refs w)(ob := Suc (obj_refs w ob))\<rparr>);
          w2 = owner_release v w1
      in w2\<lparr>owners := (owners w2)(v := \<lparr>get_ptr = p, ctrl = cb\<rparr>)\<rparr>)"

text \<open>The effect of every action but \<open>Emit\<close> and \<open>Throw\<close>.\<close>

fun exec :: "action \<Rightarrow> world \<Rightarrow> world" where
  "exec (SigCtor g) w = sig_ctor g w"
| "exec (SigMoveCtor g' g) w = sig_move_ctor g' g w"
| "exec (SigMoveAssign g' g) w = sig_move_assign g' g w"
| "exec (SigDtor g) w = sig_dtor g w"
| "exec (Connect c g f p) w = store_conn c (connect g f p w)"
| "exec (ConnectOnce c g f p) w = store_conn c (connect_once g f p w)"
| "exec (ConnectShared c g v f p) w = store_conn c (connect_shared g (owners w v) f p w)"
| "exec (ConnectRaw c g obj f p) w = store_conn c (connect_raw g obj f p w)"
| "exec (ConnectTag c g nm f p) w = store_conn c (connect_tag g nm f p w)"
| "exec (DisconnectTag g nm) w = snd (disconnect_tag g nm w)"
| "exec (DisconnectAll g) w = disconnect_all g w"
| "exec (Emit g) w = w"
| "exec (ConnDisconnect c) w = disconnect (conns w c) w"
| "exec (ConnBlock c b) w = block (conns w c) b w"
| "exec (ConnReset c) w = w\<lparr>conns := (conns w)(c := reset (conns w c))\<rparr>"
| "exec (OwnerMake v) w = owner_make v w"
| "exec (OwnerRelease v) w = owner_release v w"
| "exec (OwnerAlias v u p) w = owner_alias v u p w"
| "exec Throw w = w"

text \<open>
  Running a body: an exception in flight (\<open>Threw\<close>) ends it. \<open>emitf\<close> is the emission
  used for \<open>Emit\<close>.
\<close>

fun run_action ::
  "(nat \<Rightarrow> world \<Rightarrow> (outcome \<times> world) res) \<Rightarrow> action \<Rightarrow> world \<Rightarrow> (outcome \<times> world) res" where
  "run_action emitf (Emit g) w = emitf g w"
| "run_action emitf Throw w = Inr (Threw, w)"
| "run_action emitf a w = Inr (Normal, exec a w)"

fun run_body ::
  "(nat \<Rightarrow> world \<Rightarrow> (outcome \<times> world) res) \<Rightarrow> action list \<Rightarrow> world \<Rightarrow> (outcome \<times> world) res" where
  "run_body emitf [] w = Inr (Normal, w)"
| "run_body emitf (a # as) w =
     (case run_action emitf a w of
        Inl e \<Rightarrow> Inl e
      | Inr (Threw, w1) \<Rightarrow> Inr (Threw, w1)
      | Inr (Normal, w1) \<Rightarrow> run_body emitf as w1)"

section \<open>\<^verbatim>\<open>signal_t::operator()\<close>\<close>

text \<open>
  The block run when \<^verbatim>\<open>dirty_\<close> is set: \<^verbatim>\<open>cleanup_slots_locked\<close>, the stable sort
  by descending priority, and the reset of the flag.
\<close>

definition cleanup_and_resort :: "addr \<Rightarrow> world \<Rightarrow> world" where
  "cleanup_and_resort a w =
     (let w1 = cleanup_slots_locked a w;
          sorted = stable_sort (higher_priority w1) (slots (impls w1 a))
      in w1\<lparr>impls := (impls w1)(a := (impls w1 a)\<lparr>slots := sorted, dirty := False\<rparr>)\<rparr>)"

text \<open>
  The locked section at the head of the emission. \<open>None\<close>: the emission returns at
  once. Otherwise the snapshot \<^verbatim>\<open>local_slots\<close>, whose copies each hold a reference.
\<close>

definition emit_begin :: "nat \<Rightarrow> world \<Rightarrow> (addr list \<times> world) option" where
  "emit_begin g w =
     (case sigs w g of None \<Rightarrow> None
      | Some a \<Rightarrow>
          if slots (impls w a) = [] then None
          else
            let w1 = (if dirty (impls w a) then cleanup_and_resort a w else w);
                local_slots = slots (impls w1 a)
            in Some (local_slots, w1\<lparr>slot_refs := retain_all local_slots (slot_refs w1)\<rparr>))"

text \<open>
  The body of the loop up to the \<^verbatim>\<open>try\<close> block, for the record \<open>sp\<close>: whether the
  function is to be called, whether \<^verbatim>\<open>need_cleanup\<close> was set, and the world.
\<close>

datatype decision = Skip | Run

definition slot_guard :: "addr \<Rightarrow> world \<Rightarrow> decision \<times> bool \<times> world" where
  "slot_guard sp w =
     (if has_tracked_object (slot_heap w sp) \<and> tracked_expired w (slot_heap w sp)
      then (Skip, True, store_pending sp w)
      else if \<not> is_callable w (slot_heap w sp) then (Skip, False, w)
      else
        (case try_acquire_execution (slot_heap w sp) of
           (False, sl) \<Rightarrow> (Skip, False, w\<lparr>slot_heap := (slot_heap w)(sp := sl)\<rparr>)
         | (True, sl) \<Rightarrow>
             let w1 = w\<lparr>slot_heap := (slot_heap w)(sp := sl)\<rparr>;
                 w2 = (if single_shot sl then store_pending sp w1 else w1)
             in (Run, single_shot sl, w2\<lparr>history := history w2 @ [Invoked sp]\<rparr>)))"

text \<open>
  \<^verbatim>\<open>sp->func(args...)\<close>: the call of the stored \<^verbatim>\<open>std::function\<close>. The wrapper of a
  shared owner locks its weak pointer and holds the owner for the time of the call; when
  the lock fails (the weak pointer is empty or the owner is gone) it calls nothing.
\<close>

definition call_func ::
  "program \<Rightarrow> (action list \<Rightarrow> world \<Rightarrow> (outcome \<times> world) res) \<Rightarrow> callee \<Rightarrow> world
     \<Rightarrow> (outcome \<times> world) res" where
  "call_func P runb f w =
     (case f of
        Plain k \<Rightarrow> runb (P k w) w
      | RawMember ob k \<Rightarrow> runb (P k w) w
      | SharedMember None k \<Rightarrow> Inr (Normal, w)
      | SharedMember (Some ob) k \<Rightarrow>
          if obj_refs w ob = 0 then Inr (Normal, w)
          else
            let w1 = w\<lparr>obj_refs := (obj_refs w)(ob := Suc (obj_refs w ob))\<rparr>
            in (case runb (P k w1) w1 of
                  Inl e \<Rightarrow> Inl e
                | Inr (oc, w2) \<Rightarrow>
                    Inr (oc, w2\<lparr>obj_refs := (obj_refs w2)(ob := obj_refs w2 ob - 1)\<rparr>)))"

text \<open>\<^verbatim>\<open>try { ... } catch(...) { }\<close>.\<close>

definition catch_all :: "(outcome \<times> world) res \<Rightarrow> (outcome \<times> world) res" where
  "catch_all r = (case r of Inl e \<Rightarrow> Inl e | Inr (oc, w) \<Rightarrow> Inr (Normal, w))"

text \<open>
  The loop over the snapshot. Besides the outcome, \<^verbatim>\<open>need_cleanup\<close> and the world, it
  returns the records whose function this loop called, in the order of the calls.
\<close>

fun emit_loop ::
  "program \<Rightarrow> (action list \<Rightarrow> world \<Rightarrow> (outcome \<times> world) res) \<Rightarrow> addr list \<Rightarrow> bool \<Rightarrow> world
     \<Rightarrow> (outcome \<times> bool \<times> addr list \<times> world) res" where
  "emit_loop P runb [] nc w = Inr (Normal, nc, [], w)"
| "emit_loop P runb (sp # rest) nc w =
     (case slot_guard sp w of
        (Skip, flag, w1) \<Rightarrow> emit_loop P runb rest (nc \<or> flag) w1
      | (Run, flag, w1) \<Rightarrow>
          (case catch_all (call_func P runb (func (slot_heap w1 sp)) w1) of
             Inl e \<Rightarrow> Inl e
           | Inr (Threw, w2) \<Rightarrow> Inr (Threw, nc \<or> flag, [sp], w2)
           | Inr (Normal, w2) \<Rightarrow>
               (case emit_loop P runb rest (nc \<or> flag) w2 of
                  Inl e \<Rightarrow> Inl e
                | Inr (oc, nc', called, w3) \<Rightarrow> Inr (oc, nc', sp # called, w3))))"

text \<open>
  After the loop: \<^verbatim>\<open>impl_->dirty_ = true\<close> through the member \<^verbatim>\<open>impl_\<close> as it is
  then, and the destruction of \<^verbatim>\<open>local_slots\<close>.
\<close>

definition emit_end :: "nat \<Rightarrow> addr list \<Rightarrow> bool \<Rightarrow> world \<Rightarrow> world res" where
  "emit_end g local_slots nc w =
     (if nc
      then (case sigs w g of
              None \<Rightarrow> Inl NullDeref
            | Some a \<Rightarrow>
                let w1 = set_dirty a True w
                in Inr (w1\<lparr>slot_refs := release_all local_slots (slot_refs w1)\<rparr>))
      else Inr (w\<lparr>slot_refs := release_all local_slots (slot_refs w)\<rparr>))"

definition operator_call ::
  "program \<Rightarrow> (action list \<Rightarrow> world \<Rightarrow> (outcome \<times> world) res) \<Rightarrow> nat \<Rightarrow> world
     \<Rightarrow> (outcome \<times> addr list \<times> world) res" where
  "operator_call P runb g w =
     (case emit_begin g w of
        None \<Rightarrow> Inr (Normal, [], w)
      | Some (local_slots, w1) \<Rightarrow>
          (case emit_loop P runb local_slots False w1 of
             Inl e \<Rightarrow> Inl e
           | Inr (Threw, nc, called, w2) \<Rightarrow>
               Inr (Threw, called, w2\<lparr>slot_refs := release_all local_slots (slot_refs w2)\<rparr>)
           | Inr (Normal, nc, called, w2) \<Rightarrow>
               (case emit_end g local_slots nc w2 of
                  Inl e \<Rightarrow> Inl e
                | Inr w3 \<Rightarrow> Inr (Normal, called, w3))))"

text \<open>
  Emissions nest through callbacks without bound, so the nesting depth is the fuel:
  \<open>emit_n n\<close> allows \<open>n\<close> emissions inside one another.
\<close>

definition untraced :: "(outcome \<times> addr list \<times> world) res \<Rightarrow> (outcome \<times> world) res" where
  "untraced r = (case r of Inl e \<Rightarrow> Inl e | Inr (oc, called, w) \<Rightarrow> Inr (oc, w))"

primrec emit_n :: "nat \<Rightarrow> program \<Rightarrow> nat \<Rightarrow> world \<Rightarrow> (outcome \<times> addr list \<times> world) res" where
  "emit_n 0 P = (\<lambda>g w. Inl OutOfFuel)"
| "emit_n (Suc n) P = operator_call P (run_body (\<lambda>g w. untraced (emit_n n P g w)))"

definition run :: "nat \<Rightarrow> program \<Rightarrow> action list \<Rightarrow> world \<Rightarrow> (outcome \<times> world) res" where
  "run n P acts w = run_body (\<lambda>g w. untraced (emit_n n P g w)) acts w"

section \<open>Steps, invariants and example worlds\<close>

text \<open>
  The steps a run is made of: the effect of one action other than \<open>Emit\<close>, the locked
  head of an emission, the guard of one loop iteration on an allocated record, the
  wrapper of a shared owner taking and dropping its reference, the end of an emission,
  and the destruction of a snapshot during unwinding.
\<close>

inductive step :: "world \<Rightarrow> world \<Rightarrow> bool" where
  step_exec: "step w (exec a w)"
| step_begin: "emit_begin g w = Some (ls, w1) \<Longrightarrow> step w w1"
| step_guard: "sp < next_slot w \<Longrightarrow> step w (snd (snd (slot_guard sp w)))"
| step_hold: "obj_refs w ob \<noteq> 0 \<Longrightarrow> step w (w\<lparr>obj_refs := (obj_refs w)(ob := Suc (obj_refs w ob))\<rparr>)"
| step_drop: "step w (w\<lparr>obj_refs := (obj_refs w)(ob := obj_refs w ob - 1)\<rparr>)"
| step_end: "emit_end g ls nc w = Inr w1 \<Longrightarrow> step w w1"
| step_unwind: "step w (w\<lparr>slot_refs := release_all ls (slot_refs w)\<rparr>)"

text \<open>
  Well-formed worlds: a slot address that has not been handed out has no owner, and the
  slot lists hold allocated addresses only.
\<close>

definition well_formed :: "world \<Rightarrow> bool" where
  "well_formed w = ((\<forall>s. next_slot w \<le> s \<longrightarrow> slot_refs w s = 0) \<and>
           (\<forall>a. \<forall>s\<in>set (slots (impls w a)). s < next_slot w))"

text \<open>
  Example worlds, built from the empty world by the public operations: one signal with two
  tagged slots and an untagged one, and one signal with a single slot.
\<close>

definition tag_world :: world where
  "tag_world = exec (Connect 2 0 9 0) (exec (ConnectTag 1 0 ''net'' 8 5)
     (exec (ConnectTag 0 0 ''ui'' 7 1) (exec (SigCtor 0) empty_world)))"

definition one_slot_world :: world where
  "one_slot_world = exec (Connect 0 0 7 0) (exec (SigCtor 0) empty_world)"

text \<open>
  What no step undoes: counters only grow, the history only grows, an allocated slot
  keeps its function, priority, single-shot mark and tracked reference, its
  pending-removal and executed flags stay once set, and a slot leaves the list of an
  existing shared state only when it is flagged pending-removal.
\<close>

definition evolves :: "world \<Rightarrow> world \<Rightarrow> bool" where
  "evolves w w' =
     (next_slot w \<le> next_slot w' \<and> next_impl w \<le> next_impl w' \<and>
      (\<exists>ext. history w' = history w @ ext) \<and>
      (\<forall>s<next_slot w.
         func (slot_heap w' s) = func (slot_heap w s) \<and>
         priority (slot_heap w' s) = priority (slot_heap w s) \<and>
         single_shot (slot_heap w' s) = single_shot (slot_heap w s) \<and>
         tracked (slot_heap w' s) = tracked (slot_heap w s) \<and>
         (pending_removal (slot_heap w s) \<longrightarrow> pending_removal (slot_heap w' s)) \<and>
         (executed (slot_heap w s) \<longrightarrow> executed (slot_heap w' s))) \<and>
      (\<forall>a<next_impl w. \<forall>s\<in>set (slots (impls w a)).
         s < next_slot w \<longrightarrow>
           pending_removal (slot_heap w' s) \<or> s \<in> set (slots (impls w' a))))"

text \<open>
  The invariant behind single-shot slots: a record that has not been allocated has no
  call in the history, and a single-shot record has at most one, and none while its
  executed flag is still false.
\<close>

definition once_inv :: "world \<Rightarrow> bool" where
  "once_inv w =
     ((\<forall>s\<ge>next_slot w. Invoked s \<notin> set (history w)) \<and>
      (\<forall>s<next_slot w. single_shot (slot_heap w s) \<longrightarrow>
         (\<not> executed (slot_heap w s) \<longrightarrow> Invoked s \<notin> set (history w)) \<and>
         count_list (history w) (Invoked s) \<le> 1))"

text \<open>No call of a slot after a disconnect of that slot, in a history.\<close>

fun no_call_after_disconnect :: "event list \<Rightarrow> bool" where
  "no_call_after_disconnect [] = True"
| "no_call_after_disconnect (Invoked s # es) = no_call_after_disconnect es"
| "no_call_after_disconnect (Disconnected s # es) =
     (Invoked s \<notin> set es \<and> no_call_after_disconnect es)"

definition disc_inv :: "world \<Rightarrow> bool" where
  "disc_inv w =
     ((\<forall>s. Disconnected s \<in> set (history w) \<longrightarrow>
          s < next_slot w \<and> pending_removal (slot_heap w s)) \<and>
      no_call_after_disconnect (history w))"

text \<open>
  The order of a slot list: records of equal priority stand in registration order, and
  a list whose shared state is not dirty is sorted by descending priority.
\<close>

definition order_inv :: "world \<Rightarrow> bool" where
  "order_inv w =
     (\<forall>a. sorted_wrt (\<lambda>x y. priority (slot_heap w x) = priority (slot_heap w y) \<longrightarrow> x < y)
            (slots (impls w a)) \<and>
          (\<not> dirty (impls w a) \<longrightarrow>
             sorted_wrt (\<lambda>x y. priority (slot_heap w x) \<ge> priority (slot_heap w y))
               (slots (impls w a))))"

text \<open>
  An example program and world: three plain slots of priorities 0, 50 and 100, connected in that
  order; the callable of the middle one throws, the others do nothing.
\<close>

definition throwing_program :: program where
  "throwing_program f w = (if f = 2 then [Throw] else [])"

definition three_slot_world :: world where
  "three_slot_world = exec (Connect 2 0 3 100) (exec (Connect 1 0 2 50)
     (exec (Connect 0 0 1 0) (exec (SigCtor 0) empty_world)))"

text \<open>
  A program whose callables do nothing, a world with three slots of one priority, and a
  world with one single-shot slot.
\<close>

definition quiet_program :: program where
  "quiet_program f w = []"

definition equal_priority_world :: world where
  "equal_priority_world = exec (Connect 2 0 3 5) (exec (Connect 1 0 2 5)
     (exec (Connect 0 0 1 5) (exec (SigCtor 0) empty_world)))"

definition once_world :: world where
  "once_world = exec (ConnectOnce 0 0 1 0) (exec (SigCtor 0) empty_world)"

text \<open>
  A program for \<open>one_slot_world\<close>: the callable of its slot disconnects the slot's own
  handle and fires the signal again from inside the callback.
\<close>

definition self_disconnect_program :: program where
  "self_disconnect_program f w = (if f = 7 then [ConnDisconnect 0, Emit 0] else [])"

text \<open>
  User code that neither fires a signal nor constructs, moves or destroys one: the
  emissions it is called from cannot nest and keep their signal object.
\<close>

fun plain_action :: "action \<Rightarrow> bool" where
  "plain_action (Emit g) = False"
| "plain_action (SigCtor g) = False"
| "plain_action (SigMoveCtor g' g) = False"
| "plain_action (SigMoveAssign g' g) = False"
| "plain_action (SigDtor g) = False"
| "plain_action a = True"

definition plain_program :: "program \<Rightarrow> bool" where
  "plain_program P = (\<forall>f w. list_all plain_action (P f w))"

text \<open>
  A program for \<open>three_slot_world\<close>: the callable of the slot of priority 100 calls
  \<open>disconnect_all\<close> on the signal it is connected to; the others do nothing.
\<close>

definition disconnect_all_program :: program where
  "disconnect_all_program f w = (if f = 3 then [DisconnectAll 0] else [])"

text \<open>The world in which the loop of an emission on \<open>three_slot_world\<close> starts.\<close>

definition snapshot_world :: world where
  "snapshot_world =
     (case emit_begin 0 three_slot_world of Some (ls, w1) \<Rightarrow> w1 | None \<Rightarrow> three_slot_world)"

text \<open>Two signal objects with one slot each.\<close>

definition two_signal_world :: world where
  "two_signal_world = exec (Connect 1 1 2 0) (exec (SigCtor 1)
     (exec (Connect 0 0 1 0) (exec (SigCtor 0) empty_world)))"

text \<open>
  A world with one signal in which the owner variable 0 holds a shared pointer that is
  empty and not null: built by the aliasing constructor from the empty owner variable 1
  and the address 5.
\<close>

definition alias_world :: world where
  "alias_world = exec (OwnerAlias 0 1 (Some 5)) (exec (SigCtor 0) empty_world)"

text \<open>
  Shared states are separate: no record is in the lists of two of them, no two signal
  objects hold the same one, and a state held by a signal object has been allocated.
\<close>

definition separate :: "world \<Rightarrow> bool" where
  "separate w =
     ((\<forall>a b. a \<noteq> b \<longrightarrow> set (slots (impls w a)) \<inter> set (slots (impls w b)) = {}) \<and>
      (\<forall>g h a. g \<noteq> h \<and> sigs w g = Some a \<longrightarrow> sigs w h \<noteq> Some a) \<and>
      (\<forall>g a. sigs w g = Some a \<longrightarrow> a < next_impl w))"


text \<open>
  The world in which the body of a called function starts: the wrapper of a shared owner
  that is alive holds the owner, the other functions start where the guard left off.
\<close>

definition call_world :: "callee \<Rightarrow> world \<Rightarrow> world" where
  "call_world f w =
     (case f of
        SharedMember (Some ob) k \<Rightarrow> w\<lparr>obj_refs := (obj_refs w)(ob := Suc (obj_refs w ob))\<rparr>
      | _ \<Rightarrow> w)"

text \<open>The records that an emission called, when it returned.\<close>

definition calls_of :: "(outcome \<times> addr list \<times> world) res \<Rightarrow> addr list option" where
  "calls_of r = (case r of Inl e \<Rightarrow> None | Inr (oc, called, w) \<Rightarrow> Some called)"

text \<open>
  Programs for \<open>three_slot_world\<close>, in which the callable of the slot of priority 100
  moves the emitting signal object 0 into a new object 1 and then calls
  \<open>disconnect_all\<close> on the moved-from object 0, or on the destination 1; or blocks
  the slot of priority 50 through its handle before it calls \<open>disconnect_all\<close>.
\<close>

definition moved_from_program :: program where
  "moved_from_program f w = (if f = 3 then [SigMoveCtor 1 0, DisconnectAll 0] else [])"

definition move_destination_program :: program where
  "move_destination_program f w = (if f = 3 then [SigMoveCtor 1 0, DisconnectAll 1] else [])"

definition block_first_program :: program where
  "block_first_program f w = (if f = 3 then [ConnBlock 1 True, DisconnectAll 0] else [])"

text \<open>
  A program whose callables do nothing to the library: they return or throw. And the
  snapshot that an emission on the signal object \<open>g\<close> takes in a world (empty when the
  emission returns at once).
\<close>

definition inert_program :: "program \<Rightarrow> bool" where
  "inert_program P = (\<forall>f w. set (P f w) \<subseteq> {Throw})"

definition snapshot_of :: "nat \<Rightarrow> world \<Rightarrow> addr list" where
  "snapshot_of g w = (case emit_begin g w of None \<Rightarrow> [] | Some (ls, w1) \<Rightarrow> ls)"

section \<open>Every run is a sequence of steps\<close>

lemma mark_all_closed:
  "mark_all ss w = w\<lparr>slot_heap := (\<lambda>s. if s \<in> set ss then (slot_heap w s)\<lparr>pending_removal := True\<rparr> else slot_heap w s)\<rparr>"
  by (induction ss arbitrary: w) (auto simp: store_pending_def fun_eq_iff intro!: world.equality)

lemma mark_tagged_closed:
  "mark_tagged t ss w = w\<lparr>slot_heap := (\<lambda>s. if s \<in> set ss \<and> tracked_lock w (slot_heap w s) = Some t
       then (slot_heap w s)\<lparr>pending_removal := True\<rparr> else slot_heap w s)\<rparr>"
  by (induction ss arbitrary: w) (auto simp: store_pending_def tracked_lock_def fun_eq_iff intro!: world.equality split: option.splits)

lemma retain_all_notin: "x \<notin> set ls \<Longrightarrow> retain_all ls r x = r x"
  by (induction ls arbitrary: r) auto

lemma release_all_le: "release_all ls r x \<le> r x"
proof (induction ls arbitrary: r)
  case Nil show ?case by simp
next
  case (Cons y ys)
  have "release_all ys (r(y := r y - 1)) x \<le> (r(y := r y - 1)) x" by (rule Cons.IH)
  also have "\<dots> \<le> r x" by simp
  finally show ?case by simp
qed

lemma release_all_zero: "r x = 0 \<Longrightarrow> release_all ls r x = 0"
  using release_all_le [of ls r x] by simp

lemma set_insert_by: "set (insert_by lt x ys) = insert x (set ys)"
  by (induction ys) auto

lemma set_stable_sort: "set (stable_sort lt xs) = set xs"
  by (induction xs) (auto simp: stable_sort_def set_insert_by)

lemmas op_defs = sig_ctor_def sig_move_ctor_def sig_move_assign_def sig_dtor_def release_impl_def
  connect_def connect_once_def connect_shared_def connect_raw_def connect_tag_def connect_impl_def
  get_or_create_tag_def store_conn_def disconnect_tag_def disconnect_all_def disconnect_def
  disconnect_slot_def set_dirty_def store_pending_def block_def reset_def owner_make_def owner_release_def
  owner_alias_def null_shared_def
  mark_all_closed mark_tagged_closed empty_connection_def empty_impl_def

lemma next_slot_exec: "next_slot w \<le> next_slot (exec a w)"
  by (cases a) (auto simp: op_defs Let_def split: option.splits prod.splits)

lemma well_formed_exec: "well_formed w \<Longrightarrow> well_formed (exec a w)"
  apply (cases a)
  apply (auto simp: well_formed_def op_defs Let_def release_all_zero split: option.splits prod.splits if_splits)
  apply (blast intro: less_SucI)+
  done

lemmas emit_defs = slot_guard_def
  has_tracked_object_def tracked_expired_def is_callable_def try_acquire_execution_def
  higher_priority_def

lemma retain_all_fresh: "\<forall>x\<in>set ls. x < n \<Longrightarrow> n \<le> s \<Longrightarrow> retain_all ls r s = r s"
  by (rule retain_all_notin) auto

lemma higher_priority_cleanup: "higher_priority (cleanup_slots_locked a w) = higher_priority w"
  by (simp add: higher_priority_def fun_eq_iff cleanup_slots_locked_def Let_def)

lemma cleanup_and_resort_slots:
  "slots (impls (cleanup_and_resort a w) b) =
     (if b = a then stable_sort (higher_priority w) (filter (\<lambda>s. \<not> pending_removal (slot_heap w s)) (slots (impls w a)))
      else slots (impls w b))"
  by (simp add: cleanup_and_resort_def higher_priority_cleanup Let_def)
     (simp add: cleanup_slots_locked_def Let_def)

lemma cleanup_and_resort_dirty:
  "dirty (impls (cleanup_and_resort a w) b) = (if b = a then False else dirty (impls w b))"
  by (simp add: cleanup_and_resort_def cleanup_slots_locked_def Let_def)

lemma cleanup_and_resort_tags:
  "tags (impls (cleanup_and_resort a w) b) = tags (impls w b)"
  by (simp add: cleanup_and_resort_def cleanup_slots_locked_def Let_def)

lemma cleanup_and_resort_fields:
  "slot_heap (cleanup_and_resort a w) = slot_heap w"
  "next_slot (cleanup_and_resort a w) = next_slot w"
  "next_impl (cleanup_and_resort a w) = next_impl w"
  "history (cleanup_and_resort a w) = history w"
  "sigs (cleanup_and_resort a w) = sigs w"
  "obj_refs (cleanup_and_resort a w) = obj_refs w"
  "impl_refs (cleanup_and_resort a w) = impl_refs w"
  "conns (cleanup_and_resort a w) = conns w"
  "slot_refs (cleanup_and_resort a w) =
     release_all (filter (\<lambda>s. pending_removal (slot_heap w s)) (slots (impls w a))) (slot_refs w)"
  by (simp_all add: cleanup_and_resort_def cleanup_slots_locked_def Let_def)

lemmas cleanup_and_resort_simps = cleanup_and_resort_slots cleanup_and_resort_dirty
  cleanup_and_resort_tags cleanup_and_resort_fields

lemma emit_begin_cases:
  assumes "emit_begin g w = Some (ls, w1)"
  obtains a w0 where "sigs w g = Some a" "slots (impls w a) \<noteq> []"
    "w1 = w0\<lparr>slot_refs := retain_all ls (slot_refs w0)\<rparr>" "ls = slots (impls w0 a)"
    "w0 = (if dirty (impls w a) then cleanup_and_resort a w else w)"
  using assms by (auto simp: emit_begin_def Let_def split: option.splits if_splits)

lemma emit_begin_fields:
  assumes "emit_begin g w = Some (ls, w1)"
  shows "slot_heap w1 = slot_heap w" "next_slot w1 = next_slot w" "next_impl w1 = next_impl w"
    "history w1 = history w" "sigs w1 = sigs w" "obj_refs w1 = obj_refs w" "conns w1 = conns w"
    "impl_refs w1 = impl_refs w"
proof -
  from assms obtain a w0 where
    w1: "w1 = w0\<lparr>slot_refs := retain_all ls (slot_refs w0)\<rparr>" and
    w0: "w0 = (if dirty (impls w a) then cleanup_and_resort a w else w)"
    by (rule emit_begin_cases)
  show "slot_heap w1 = slot_heap w" "next_slot w1 = next_slot w" "next_impl w1 = next_impl w"
    "history w1 = history w" "sigs w1 = sigs w" "obj_refs w1 = obj_refs w" "conns w1 = conns w"
    "impl_refs w1 = impl_refs w"
    by (simp_all add: w1 w0 cleanup_and_resort_simps)
qed

lemma slot_guard_fields:
  "impls (snd (snd (slot_guard sp w))) = impls w"
  "next_slot (snd (snd (slot_guard sp w))) = next_slot w"
  "next_impl (snd (snd (slot_guard sp w))) = next_impl w"
  "sigs (snd (snd (slot_guard sp w))) = sigs w"
  "obj_refs (snd (snd (slot_guard sp w))) = obj_refs w"
  "slot_refs (snd (snd (slot_guard sp w))) = slot_refs w"
  "impl_refs (snd (snd (slot_guard sp w))) = impl_refs w"
  "conns (snd (snd (slot_guard sp w))) = conns w"
  by (simp_all add: slot_guard_def try_acquire_execution_def store_pending_def Let_def)

lemma emit_end_fields:
  assumes "emit_end g ls nc w = Inr w1"
  shows "slot_heap w1 = slot_heap w" "next_slot w1 = next_slot w" "next_impl w1 = next_impl w"
    "history w1 = history w" "sigs w1 = sigs w" "obj_refs w1 = obj_refs w" "conns w1 = conns w"
    "impl_refs w1 = impl_refs w"
    "slots (impls w1 b) = slots (impls w b)" "tags (impls w1 b) = tags (impls w b)"
    "dirty (impls w b) \<Longrightarrow> dirty (impls w1 b)"
  using assms
  by (auto simp: emit_end_def set_dirty_def Let_def split: if_splits option.splits)

lemma next_slot_step: "step w w' \<Longrightarrow> next_slot w \<le> next_slot w'"
  by (induction rule: step.induct)
     (auto simp: next_slot_exec emit_defs op_defs Let_def emit_begin_fields emit_end_def
        split: option.splits if_splits prod.splits)

lemma well_formed_step: "step w w' \<Longrightarrow> well_formed w \<Longrightarrow> well_formed w'"
proof (induction rule: step.induct)
  case (step_exec w a) then show ?case by (simp add: well_formed_exec)
next
  case (step_begin g w ls w1)
  from step_begin(1) show ?case
  proof (cases rule: emit_begin_cases)
    case (1 a w0)
    have wf0: "well_formed w0"
      using 1(5) step_begin(2)
      by (auto simp: well_formed_def cleanup_and_resort_simps set_stable_sort release_all_zero)
    have "\<forall>x\<in>set ls. x < next_slot w0" using wf0 1(4) by (auto simp: well_formed_def)
    then show ?thesis using wf0 1(3)
      by (auto simp: well_formed_def retain_all_fresh)
  qed
next
  case (step_guard sp w)
  then show ?case
    by (auto simp: well_formed_def emit_defs op_defs Let_def split: option.splits if_splits prod.splits)
next
  case (step_end g ls nc w w1)
  then show ?case
    by (auto simp: well_formed_def emit_end_def op_defs Let_def release_all_zero split: option.splits if_splits)
qed (auto simp: well_formed_def release_all_zero)

lemma next_slot_steps: "step\<^sup>*\<^sup>* w w' \<Longrightarrow> next_slot w \<le> next_slot w'"
  by (induction rule: rtranclp_induct) (auto dest: next_slot_step)

lemma well_formed_steps: "step\<^sup>*\<^sup>* w w' \<Longrightarrow> well_formed w \<Longrightarrow> well_formed w'"
  by (induction rule: rtranclp_induct) (auto dest: well_formed_step)

lemma exec_steps: "step\<^sup>*\<^sup>* w (exec a w)"
  by (rule r_into_rtranclp) (rule step_exec)

lemma run_action_steps:
  assumes E: "\<And>g w oc w'. well_formed w \<Longrightarrow> emitf g w = Inr (oc, w') \<Longrightarrow> step\<^sup>*\<^sup>* w w'"
  shows "well_formed w \<Longrightarrow> run_action emitf a w = Inr (oc, w') \<Longrightarrow> step\<^sup>*\<^sup>* w w'"
  by (cases a) (auto intro: E simp del: exec.simps simp: exec_steps)

lemma run_body_steps:
  assumes E: "\<And>g w oc w'. well_formed w \<Longrightarrow> emitf g w = Inr (oc, w') \<Longrightarrow> step\<^sup>*\<^sup>* w w'"
  shows "well_formed w \<Longrightarrow> run_body emitf acts w = Inr (oc, w') \<Longrightarrow> step\<^sup>*\<^sup>* w w'"
proof (induction acts arbitrary: w)
  case Nil then show ?case by simp
next
  case (Cons a acts)
  from Cons.prems(2) obtain oc1 w1 where a: "run_action emitf a w = Inr (oc1, w1)"
    by (auto split: sum.splits)
  have s1: "step\<^sup>*\<^sup>* w w1" using run_action_steps [OF E Cons.prems(1) a] .
  show ?case
  proof (cases oc1)
    case Normal
    then have "run_body emitf acts w1 = Inr (oc, w')" using Cons.prems(2) a by simp
    moreover have "well_formed w1" using s1 Cons.prems(1) by (rule well_formed_steps)
    ultimately have "step\<^sup>*\<^sup>* w1 w'" by (rule Cons.IH [rotated])
    with s1 show ?thesis by (rule rtranclp_trans)
  next
    case Threw
    then have "w' = w1" using Cons.prems(2) a by simp
    with s1 show ?thesis by simp
  qed
qed

lemma call_func_steps:
  assumes R: "\<And>acts w oc w'. well_formed w \<Longrightarrow> runb acts w = Inr (oc, w') \<Longrightarrow> step\<^sup>*\<^sup>* w w'"
  shows "well_formed w \<Longrightarrow> call_func P runb f w = Inr (oc, w') \<Longrightarrow> step\<^sup>*\<^sup>* w w'"
proof (cases f)
  case (Plain k)
  assume "well_formed w" "call_func P runb f w = Inr (oc, w')"
  then show ?thesis using Plain by (auto simp: call_func_def intro: R)
next
  case (RawMember ob k)
  assume "well_formed w" "call_func P runb f w = Inr (oc, w')"
  then show ?thesis using RawMember by (auto simp: call_func_def intro: R)
next
  case (SharedMember wk k)
  assume wf: "well_formed w" and c: "call_func P runb f w = Inr (oc, w')"
  show ?thesis
  proof (cases "\<exists>ob. wk = Some ob \<and> obj_refs w ob \<noteq> 0")
    case False
    then show ?thesis using c SharedMember by (cases wk) (auto simp: call_func_def)
  next
    case True
    then obtain ob where wk: "wk = Some ob" and False: "obj_refs w ob \<noteq> 0" by blast
    define w1 where "w1 = w\<lparr>obj_refs := (obj_refs w)(ob := Suc (obj_refs w ob))\<rparr>"
    from c False SharedMember wk obtain w2 where
      r: "runb (P k w1) w1 = Inr (oc, w2)" and
      w': "w' = w2\<lparr>obj_refs := (obj_refs w2)(ob := obj_refs w2 ob - 1)\<rparr>"
      by (auto simp: call_func_def Let_def w1_def split: sum.splits)
    have s1: "step w w1" unfolding w1_def using False by (rule step_hold)
    then have wf1: "well_formed w1" using wf by (rule well_formed_step)
    have s2: "step\<^sup>*\<^sup>* w1 w2" using wf1 r by (rule R)
    have s3: "step w2 w'" unfolding w' by (rule step_drop)
    from s1 s2 s3 show ?thesis by (meson converse_rtranclp_into_rtranclp rtranclp.rtrancl_into_rtrancl)
  qed
qed

lemma slot_guard_step: "sp < next_slot w \<Longrightarrow> slot_guard sp w = (d, flag, w1) \<Longrightarrow> step w w1"
  using step_guard [of sp w] by simp

lemma emit_loop_steps:
  assumes R: "\<And>acts w oc w'. well_formed w \<Longrightarrow> runb acts w = Inr (oc, w') \<Longrightarrow> step\<^sup>*\<^sup>* w w'"
  shows "well_formed w \<Longrightarrow> \<forall>s\<in>set ls. s < next_slot w \<Longrightarrow>
         emit_loop P runb ls nc w = Inr (oc, nc', called, w') \<Longrightarrow> step\<^sup>*\<^sup>* w w'"
proof (induction ls arbitrary: w nc oc nc' called w')
  case Nil then show ?case by simp
next
  case (Cons sp rest)
  obtain d flag w1 where g: "slot_guard sp w = (d, flag, w1)" by (cases "slot_guard sp w") auto
  have s1: "step w w1" using Cons.prems(2) g by (auto intro: slot_guard_step)
  have wf1: "well_formed w1" using s1 Cons.prems(1) by (rule well_formed_step)
  have n1: "next_slot w \<le> next_slot w1" using s1 by (rule next_slot_step)
  show ?case
  proof (cases d)
    case Skip
    then have l: "emit_loop P runb rest (nc \<or> flag) w1 = Inr (oc, nc', called, w')"
      using Cons.prems(3) g by simp
    have "\<forall>s\<in>set rest. s < next_slot w1" using Cons.prems(2) n1 by auto
    then have "step\<^sup>*\<^sup>* w1 w'" using wf1 l by (auto intro: Cons.IH)
    with s1 show ?thesis by (rule converse_rtranclp_into_rtranclp)
  next
    case Run
    from Cons.prems(3) g Run obtain oc2 w2 where
      c: "call_func P runb (func (slot_heap w1 sp)) w1 = Inr (oc2, w2)"
      by (auto simp: catch_all_def split: sum.splits)
    have s2: "step\<^sup>*\<^sup>* w1 w2" using call_func_steps [OF R wf1 c] .
    have wf2: "well_formed w2" using s2 wf1 by (rule well_formed_steps)
    have n2: "next_slot w1 \<le> next_slot w2" using s2 by (rule next_slot_steps)
    from Cons.prems(3) g Run c obtain called2 where
      l: "emit_loop P runb rest (nc \<or> flag) w2 = Inr (oc, nc', called2, w')"
      by (auto simp: catch_all_def split: sum.splits)
    have "\<forall>s\<in>set rest. s < next_slot w2" using Cons.prems(2) n1 n2 by auto
    then have "step\<^sup>*\<^sup>* w2 w'" using wf2 l by (auto intro: Cons.IH)
    with s1 s2 show ?thesis by (meson converse_rtranclp_into_rtranclp rtranclp_trans)
  qed
qed

lemma operator_call_steps:
  assumes R: "\<And>acts w oc w'. well_formed w \<Longrightarrow> runb acts w = Inr (oc, w') \<Longrightarrow> step\<^sup>*\<^sup>* w w'"
  shows "well_formed w \<Longrightarrow> operator_call P runb g w = Inr (oc, called, w') \<Longrightarrow> step\<^sup>*\<^sup>* w w'"
proof -
  assume wf: "well_formed w" and c: "operator_call P runb g w = Inr (oc, called, w')"
  show ?thesis
  proof (cases "emit_begin g w")
    case None
    then show ?thesis using c by (simp add: operator_call_def)
  next
    case (Some p)
    obtain ls w1 where p: "p = (ls, w1)" by (cases p)
    have b: "emit_begin g w = Some (ls, w1)" using Some p by simp
    have s1: "step w w1" using b by (rule step_begin)
    have wf1: "well_formed w1" using s1 wf by (rule well_formed_step)
    have ls: "\<forall>s\<in>set ls. s < next_slot w1"
      using b wf1 by (auto elim!: emit_begin_cases simp: well_formed_def)
    from c b obtain oc2 nc2 w2 where
      l: "emit_loop P runb ls False w1 = Inr (oc2, nc2, called, w2)"
      by (auto simp: operator_call_def split: sum.splits outcome.splits)
    have s2: "step\<^sup>*\<^sup>* w1 w2" using emit_loop_steps [OF R wf1 ls l] .
    have s3: "step w2 w'"
    proof (cases oc2)
      case Normal
      then have "emit_end g ls nc2 w2 = Inr w'" using c b l
        by (auto simp: operator_call_def split: sum.splits)
      then show ?thesis by (rule step_end)
    next
      case Threw
      then have "w' = w2\<lparr>slot_refs := release_all ls (slot_refs w2)\<rparr>" using c b l
        by (auto simp: operator_call_def)
      then show ?thesis by (simp add: step_unwind)
    qed
    from s1 s2 s3 show ?thesis
      by (meson converse_rtranclp_into_rtranclp rtranclp.rtrancl_into_rtrancl)
  qed
qed

lemma untraced_Inr: "untraced r = Inr (oc, w') \<longleftrightarrow> (\<exists>called. r = Inr (oc, called, w'))"
  by (auto simp: untraced_def split: sum.splits)

lemma emit_n_steps:
  "well_formed w \<Longrightarrow> emit_n n P g w = Inr (oc, called, w') \<Longrightarrow> step\<^sup>*\<^sup>* w w'"
proof (induction n arbitrary: w g oc called w')
  case 0 then show ?case by simp
next
  case (Suc n)
  have E: "\<And>g w oc w'. well_formed w \<Longrightarrow> untraced (emit_n n P g w) = Inr (oc, w') \<Longrightarrow> step\<^sup>*\<^sup>* w w'"
    by (auto simp: untraced_Inr intro: Suc.IH)
  have R: "\<And>acts w oc w'. well_formed w \<Longrightarrow>
      run_body (\<lambda>g w. untraced (emit_n n P g w)) acts w = Inr (oc, w') \<Longrightarrow> step\<^sup>*\<^sup>* w w'"
    by (rule run_body_steps [where emitf = "\<lambda>g w. untraced (emit_n n P g w)"]) (auto intro: E)
  show ?case using Suc.prems by (auto intro: operator_call_steps [OF R])
qed

lemma run_steps: "well_formed w \<Longrightarrow> run n P acts w = Inr (oc, w') \<Longrightarrow> step\<^sup>*\<^sup>* w w'"
  unfolding run_def
  by (rule run_body_steps [where emitf = "\<lambda>g w. untraced (emit_n n P g w)"])
     (auto simp: untraced_Inr intro: emit_n_steps)

section \<open>Tag disconnection, invalid owners, the dirty flag\<close>

lemma tag_world_simps:
  "sigs tag_world 0 = Some 0"
  "slots (impls tag_world 0) = [0, 1, 2]" "tags (impls tag_world 0) = [0, 1]"
  "tag_heap tag_world 0 = ''ui''" "tag_heap tag_world (Suc 0) = ''net''"
  "obj_refs tag_world 0 = 1" "obj_refs tag_world (Suc 0) = 1"
  "tracked (slot_heap tag_world 0) = Some 0" "tracked (slot_heap tag_world (Suc 0)) = Some 1"
  "tracked (slot_heap tag_world 2) = None"
  "pending_removal (slot_heap tag_world 0) = False"
  "pending_removal (slot_heap tag_world (Suc 0)) = False"
  "pending_removal (slot_heap tag_world 2) = False"
  by (simp_all add: tag_world_def op_defs empty_world_def Let_def)

lemma disconnect_tag_result:
  "fst (disconnect_tag g nm w) =
     (\<exists>a. sigs w g = Some a \<and> (\<exists>t\<in>set (tags (impls w a)). tag_heap w t = nm))"
  by (cases "sigs w g")
     (auto simp: disconnect_tag_def Let_def find_None_iff find_Some_iff
        split: option.splits)

lemma disconnect_tag_false: "\<not> fst (disconnect_tag g nm w) \<Longrightarrow> snd (disconnect_tag g nm w) = w"
  by (auto simp: disconnect_tag_def Let_def split: option.splits)

lemma disconnect_tag_true:
  "fst (disconnect_tag g nm w) \<Longrightarrow>
     (\<exists>a t. sigs w g = Some a \<and> find (\<lambda>t. tag_heap w t = nm) (tags (impls w a)) = Some t \<and>
        tags (impls (snd (disconnect_tag g nm w)) a) = remove1 t (tags (impls w a)) \<and>
        (distinct (tags (impls w a)) \<longrightarrow> t \<notin> set (tags (impls (snd (disconnect_tag g nm w)) a))) \<and>
        slots (impls (snd (disconnect_tag g nm w)) a) = slots (impls w a) \<and>
        (\<forall>s. slot_heap (snd (disconnect_tag g nm w)) s =
              (if s \<in> set (slots (impls w a)) \<and> tracked_lock w (slot_heap w s) = Some t
               then (slot_heap w s)\<lparr>pending_removal := True\<rparr> else slot_heap w s)))"
  by (auto simp: disconnect_tag_def Let_def mark_tagged_closed set_dirty_def tracked_lock_def
        split: option.splits)

text \<open>
  Claim C6. \<open>disconnect(tag_name)\<close> returns true exactly when the signal holds its shared
  state and a tag of that name is in the registry. When it returns true, the first tag
  of that name is erased from the registry (and is gone from it when the registry has no
  duplicates), the slot list is kept, and a slot record is changed exactly when it is in
  the slot list and its tracked reference locks to that tag object: its pending-removal
  flag is then set; every other record is left as it was. When it returns false the
  world is unchanged.
\<close>

theorem C6_disconnect_tag:
  "(fst (disconnect_tag g nm w) =
     (\<exists>a. sigs w g = Some a \<and> (\<exists>t\<in>set (tags (impls w a)). tag_heap w t = nm))) \<and>
   (fst (disconnect_tag g nm w) \<longrightarrow>
     (\<exists>a t. sigs w g = Some a \<and> find (\<lambda>t. tag_heap w t = nm) (tags (impls w a)) = Some t \<and>
        tags (impls (snd (disconnect_tag g nm w)) a) = remove1 t (tags (impls w a)) \<and>
        (distinct (tags (impls w a)) \<longrightarrow> t \<notin> set (tags (impls (snd (disconnect_tag g nm w)) a))) \<and>
        slots (impls (snd (disconnect_tag g nm w)) a) = slots (impls w a) \<and>
        (\<forall>s. slot_heap (snd (disconnect_tag g nm w)) s =
              (if s \<in> set (slots (impls w a)) \<and> tracked_lock w (slot_heap w s) = Some t
               then (slot_heap w s)\<lparr>pending_removal := True\<rparr> else slot_heap w s)))) \<and>
   (\<not> fst (disconnect_tag g nm w) \<longrightarrow> snd (disconnect_tag g nm w) = w)"
  using disconnect_tag_result [of g nm w] disconnect_tag_true [of g nm w]
    disconnect_tag_false [of g nm w]
  by blast





theorem C6_disconnect_tag_witness:
  "fst (disconnect_tag 0 ''ui'' tag_world) \<and>
   tags (impls (snd (disconnect_tag 0 ''ui'' tag_world)) 0) = [1] \<and>
   pending_removal (slot_heap (snd (disconnect_tag 0 ''ui'' tag_world)) 0) \<and>
   \<not> pending_removal (slot_heap (snd (disconnect_tag 0 ''ui'' tag_world)) 1) \<and>
   \<not> pending_removal (slot_heap (snd (disconnect_tag 0 ''ui'' tag_world)) 2) \<and>
   \<not> fst (disconnect_tag 0 ''gone'' tag_world) \<and>
   snd (disconnect_tag 0 ''gone'' tag_world) = tag_world"
  using C6_disconnect_tag [of 0 "''ui''" tag_world] C6_disconnect_tag [of 0 "''gone''" tag_world]
  by (auto simp: tag_world_simps tracked_lock_def)

section \<open>What no step undoes\<close>

lemma evolves_refl: "evolves w w"
  by (simp add: evolves_def)

lemma evolves_trans: "evolves w1 w2 \<Longrightarrow> evolves w2 w3 \<Longrightarrow> evolves w1 w3"
  unfolding evolves_def
  apply (intro conjI)
      apply simp
     apply simp
    apply (elim conjE exE) apply simp
   apply (elim conjE) apply (metis (no_types, lifting) less_le_trans)
  apply (elim conjE)
  apply (intro allI impI ballI)
  apply (metis (no_types, lifting) less_le_trans)
  done

lemma evolves_exec: "evolves w (exec a w)"
  by (cases a)
     (auto simp: evolves_def op_defs Let_def split: option.splits prod.splits if_splits)

lemma slot_guard_slot:
  "func (slot_heap (snd (snd (slot_guard sp w))) s) = func (slot_heap w s)"
  "priority (slot_heap (snd (snd (slot_guard sp w))) s) = priority (slot_heap w s)"
  "single_shot (slot_heap (snd (snd (slot_guard sp w))) s) = single_shot (slot_heap w s)"
  "tracked (slot_heap (snd (snd (slot_guard sp w))) s) = tracked (slot_heap w s)"
  "blocked (slot_heap (snd (snd (slot_guard sp w))) s) = blocked (slot_heap w s)"
  "pending_removal (slot_heap w s) \<Longrightarrow> pending_removal (slot_heap (snd (snd (slot_guard sp w))) s)"
  "executed (slot_heap w s) \<Longrightarrow> executed (slot_heap (snd (snd (slot_guard sp w))) s)"
  "s \<noteq> sp \<Longrightarrow> slot_heap (snd (snd (slot_guard sp w))) s = slot_heap w s"
  by (auto simp: slot_guard_def try_acquire_execution_def store_pending_def Let_def)

lemma slot_guard_history:
  "history (snd (snd (slot_guard sp w))) =
     (if fst (slot_guard sp w) = Run then history w @ [Invoked sp] else history w)"
  by (simp add: slot_guard_def try_acquire_execution_def store_pending_def Let_def)

lemma evolves_step: "step w w' \<Longrightarrow> evolves w w'"
proof (induction rule: step.induct)
  case (step_exec w a) show ?case by (rule evolves_exec)
next
  case (step_begin g w ls w1)
  from step_begin(1) show ?case
  proof (cases rule: emit_begin_cases)
    case (1 a w0)
    then show ?thesis
      by (auto simp: evolves_def cleanup_and_resort_simps set_stable_sort split: if_splits)
  qed
next
  case (step_guard sp w)
  show ?case
    by (auto simp: evolves_def slot_guard_fields slot_guard_slot slot_guard_history)
next
  case (step_end g ls nc w w1)
  then show ?case by (auto simp: evolves_def emit_end_fields)
qed (auto simp: evolves_def)

lemma evolves_steps: "step\<^sup>*\<^sup>* w w' \<Longrightarrow> evolves w w'"
  by (induction rule: rtranclp_induct) (auto intro: evolves_refl evolves_trans evolves_step)

section \<open>The order of the slot lists\<close>

lemma stable_sort_Cons: "stable_sort lt (x # xs) = insert_by lt x (stable_sort lt xs)"
  by (simp add: stable_sort_def)

lemma stable_sort_Nil: "stable_sort lt [] = []"
  by (simp add: stable_sort_def)

lemma insert_by_descending:
  fixes k :: "'a \<Rightarrow> int"
  shows "sorted_wrt (\<lambda>x y. k x \<ge> k y) ys \<Longrightarrow>
         sorted_wrt (\<lambda>x y. k x \<ge> k y) (insert_by (\<lambda>a b. k a > k b) x ys)"
  by (induction ys) (auto simp: set_insert_by)

lemma stable_sort_descending:
  fixes k :: "'a \<Rightarrow> int"
  shows "sorted_wrt (\<lambda>x y. k x \<ge> k y) (stable_sort (\<lambda>a b. k a > k b) xs)"
  by (induction xs) (auto simp: stable_sort_Nil stable_sort_Cons insert_by_descending)

lemma insert_by_ties:
  fixes k :: "nat \<Rightarrow> int"
  shows "sorted_wrt (\<lambda>x y. k x = k y \<longrightarrow> x < y) ys \<Longrightarrow> \<forall>y\<in>set ys. k x = k y \<longrightarrow> x < y \<Longrightarrow>
         sorted_wrt (\<lambda>x y. k x = k y \<longrightarrow> x < y) (insert_by (\<lambda>a b. k a > k b) x ys)"
  by (induction ys) (auto simp: set_insert_by)

lemma stable_sort_ties:
  fixes k :: "nat \<Rightarrow> int"
  shows "sorted_wrt (\<lambda>x y. k x = k y \<longrightarrow> x < y) xs \<Longrightarrow>
         sorted_wrt (\<lambda>x y. k x = k y \<longrightarrow> x < y) (stable_sort (\<lambda>a b. k a > k b) xs)"
  by (induction xs)
     (auto simp: stable_sort_Nil stable_sort_Cons set_stable_sort intro!: insert_by_ties)

lemma higher_priority_key:
  "higher_priority w = (\<lambda>a b. priority (slot_heap w a) > priority (slot_heap w b))"
  by (simp add: higher_priority_def fun_eq_iff)

lemma ties_cong:
  assumes "\<forall>s\<in>set xs. priority (slot_heap w' s) = priority (slot_heap w s)"
  shows "sorted_wrt (\<lambda>x y. priority (slot_heap w' x) = priority (slot_heap w' y) \<longrightarrow> x < y) xs =
         sorted_wrt (\<lambda>x y. priority (slot_heap w x) = priority (slot_heap w y) \<longrightarrow> x < y) xs"
  using assms by (induction xs) auto

lemma descending_cong:
  assumes "\<forall>s\<in>set xs. priority (slot_heap w' s) = priority (slot_heap w s)"
  shows "sorted_wrt (\<lambda>x y. priority (slot_heap w' x) \<ge> priority (slot_heap w' y)) xs =
         sorted_wrt (\<lambda>x y. priority (slot_heap w x) \<ge> priority (slot_heap w y)) xs"
  using assms by (induction xs) auto

lemma exec_list:
  "slots (impls (exec act w) a) = [] \<or>
   (slots (impls (exec act w) a) = slots (impls w a) \<and>
      (dirty (impls w a) \<longrightarrow> dirty (impls (exec act w) a))) \<or>
   (slots (impls (exec act w) a) = slots (impls w a) @ [next_slot w] \<and>
      dirty (impls (exec act w) a))"
  by (cases act) (auto simp: op_defs Let_def split: option.splits prod.splits if_splits)

lemma evolves_priority:
  "evolves w w' \<Longrightarrow> s < next_slot w \<Longrightarrow> priority (slot_heap w' s) = priority (slot_heap w s)"
  by (simp add: evolves_def)

lemma order_inv_list:
  assumes ev: "evolves w w'" and wf: "well_formed w" and oi: "order_inv w"
    and l: "slots (impls w' a) = [] \<or>
      (slots (impls w' a) = slots (impls w a) \<and> (dirty (impls w a) \<longrightarrow> dirty (impls w' a))) \<or>
      (slots (impls w' a) = slots (impls w a) @ [next_slot w] \<and> dirty (impls w' a))"
  shows "sorted_wrt (\<lambda>x y. priority (slot_heap w' x) = priority (slot_heap w' y) \<longrightarrow> x < y)
            (slots (impls w' a)) \<and>
          (\<not> dirty (impls w' a) \<longrightarrow>
             sorted_wrt (\<lambda>x y. priority (slot_heap w' x) \<ge> priority (slot_heap w' y))
               (slots (impls w' a)))"
proof -
  have alloc: "\<forall>s\<in>set (slots (impls w a)). s < next_slot w"
    using wf by (simp add: well_formed_def)
  then have same: "\<forall>s\<in>set (slots (impls w a)). priority (slot_heap w' s) = priority (slot_heap w s)"
    using ev by (auto simp: evolves_priority)
  have t: "sorted_wrt (\<lambda>x y. priority (slot_heap w' x) = priority (slot_heap w' y) \<longrightarrow> x < y)
            (slots (impls w a))"
    using oi ties_cong [OF same] by (simp add: order_inv_def)
  have d: "\<not> dirty (impls w a) \<Longrightarrow>
      sorted_wrt (\<lambda>x y. priority (slot_heap w' x) \<ge> priority (slot_heap w' y)) (slots (impls w a))"
    using oi descending_cong [OF same] by (simp add: order_inv_def)
  from l show ?thesis
  proof (elim disjE conjE)
    assume "slots (impls w' a) = []" then show ?thesis by simp
  next
    assume "slots (impls w' a) = slots (impls w a)" "dirty (impls w a) \<longrightarrow> dirty (impls w' a)"
    then show ?thesis using t d by auto
  next
    assume "slots (impls w' a) = slots (impls w a) @ [next_slot w]" "dirty (impls w' a)"
    then show ?thesis using t alloc by (auto simp: sorted_wrt_append)
  qed
qed

lemma order_inv_exec: "well_formed w \<Longrightarrow> order_inv w \<Longrightarrow> order_inv (exec act w)"
  using order_inv_list [OF evolves_exec _ _ exec_list]
  by (simp add: order_inv_def)

lemma order_inv_step: "step w w' \<Longrightarrow> well_formed w \<Longrightarrow> order_inv w \<Longrightarrow> order_inv w'"
proof (induction rule: step.induct)
  case (step_exec w a) then show ?case by (simp add: order_inv_exec)
next
  case (step_begin g w ls w1)
  from step_begin(1) show ?case
  proof (cases rule: emit_begin_cases)
    case (1 a w0)
    show ?thesis
    proof (cases "dirty (impls w a)")
      case False
      then show ?thesis using 1 step_begin(3) by (simp add: order_inv_def)
    next
      case True
      then show ?thesis using 1 step_begin(3)
        by (auto simp: order_inv_def cleanup_and_resort_simps higher_priority_key
              stable_sort_descending [where k = "\<lambda>s. priority (slot_heap w s)"]
              intro!: stable_sort_ties [where k = "\<lambda>s. priority (slot_heap w s)"]
              sorted_wrt_filter)
    qed
  qed
next
  case (step_guard sp w)
  then show ?case by (simp add: order_inv_def slot_guard_fields slot_guard_slot)
next
  case (step_end g ls nc w w1)
  have "\<And>b. \<not> dirty (impls w1 b) \<Longrightarrow> \<not> dirty (impls w b)"
    using emit_end_fields(11) [OF step_end(1)] by blast
  then show ?case using step_end(3)
    by (simp add: order_inv_def emit_end_fields(1,9) [OF step_end(1)])
qed (auto simp: order_inv_def)

lemma order_inv_steps:
  "step\<^sup>*\<^sup>* w w' \<Longrightarrow> well_formed w \<Longrightarrow> order_inv w \<Longrightarrow> order_inv w'"
  by (induction rule: rtranclp_induct) (auto dest: order_inv_step well_formed_steps)

section \<open>Priority order of an emission\<close>

lemma well_formed_empty: "well_formed empty_world"
  by (simp add: well_formed_def empty_world_def empty_impl_def)

lemma order_inv_empty: "order_inv empty_world"
  by (simp add: order_inv_def empty_world_def empty_impl_def)

lemma emit_loop_called:
  "emit_loop P runb ls nc w = Inr (oc, nc', called, w') \<Longrightarrow> sorted_wrt R ls \<Longrightarrow>
   sorted_wrt R called \<and> set called \<subseteq> set ls"
proof (induction ls arbitrary: nc w oc nc' called w')
  case Nil then show ?case by simp
next
  case (Cons sp rest)
  obtain d flag w1 where g: "slot_guard sp w = (d, flag, w1)" by (cases "slot_guard sp w") auto
  have r: "sorted_wrt R rest" and h: "\<forall>y\<in>set rest. R sp y" using Cons.prems(2) by auto
  show ?case
  proof (cases d)
    case Skip
    then have "emit_loop P runb rest (nc \<or> flag) w1 = Inr (oc, nc', called, w')"
      using Cons.prems(1) g by simp
    from Cons.IH [OF this r] show ?thesis by auto
  next
    case Run
    from Cons.prems(1) g Run obtain oc2 w2 where
      c: "catch_all (call_func P runb (func (slot_heap w1 sp)) w1) = Inr (oc2, w2)"
      by (auto split: sum.splits)
    show ?thesis
    proof (cases oc2)
      case Threw
      then show ?thesis using Cons.prems(1) g Run c by auto
    next
      case Normal
      then obtain called2 where
        l: "emit_loop P runb rest (nc \<or> flag) w2 = Inr (oc, nc', called2, w')" and
        cl: "called = sp # called2"
        using Cons.prems(1) g Run c by (auto split: sum.splits)
      from Cons.IH [OF l r] show ?thesis using cl h by auto
    qed
  qed
qed

lemma sorted_wrt_both:
  "sorted_wrt R xs \<Longrightarrow> sorted_wrt Q xs \<Longrightarrow> sorted_wrt (\<lambda>x y. R x y \<and> Q x y) xs"
  by (induction xs) auto

lemma emit_begin_snapshot:
  assumes wf: "well_formed w" and oi: "order_inv w" and b: "emit_begin g w = Some (ls, w1)"
  shows "sorted_wrt (\<lambda>x y. priority (slot_heap w x) > priority (slot_heap w y) \<or>
            priority (slot_heap w x) = priority (slot_heap w y) \<and> x < y) ls \<and>
         (\<forall>s\<in>set ls. s < next_slot w)"
proof -
  have s: "step w w1" using b by (rule step_begin)
  have oi1: "order_inv w1" using s wf oi by (rule order_inv_step)
  have wf1: "well_formed w1" using s wf by (rule well_formed_step)
  from b obtain a where ls: "ls = slots (impls w1 a)" and nd: "\<not> dirty (impls w1 a)"
    by (auto elim!: emit_begin_cases simp: cleanup_and_resort_simps split: if_splits)
  have h: "slot_heap w1 = slot_heap w" "next_slot w1 = next_slot w"
    using b by (simp_all add: emit_begin_fields)
  have "sorted_wrt (\<lambda>x y. priority (slot_heap w x) = priority (slot_heap w y) \<longrightarrow> x < y) ls"
       "sorted_wrt (\<lambda>x y. priority (slot_heap w x) \<ge> priority (slot_heap w y)) ls"
    using oi1 ls nd h by (auto simp: order_inv_def)
  then have "sorted_wrt (\<lambda>x y. (priority (slot_heap w x) = priority (slot_heap w y) \<longrightarrow> x < y) \<and>
      priority (slot_heap w x) \<ge> priority (slot_heap w y)) ls"
    by (rule sorted_wrt_both)
  then have "sorted_wrt (\<lambda>x y. priority (slot_heap w x) > priority (slot_heap w y) \<or>
            priority (slot_heap w x) = priority (slot_heap w y) \<and> x < y) ls"
    by (rule sorted_wrt_mono_rel [rotated]) auto
  moreover have "\<forall>s\<in>set ls. s < next_slot w"
    using wf1 ls h by (auto simp: well_formed_def)
  ultimately show ?thesis by simp
qed

lemma operator_call_cases:
  assumes "operator_call P runb g w = Inr (oc, called, w')"
  obtains "emit_begin g w = None" "oc = Normal" "called = []" "w' = w"
  | ls w1 oc2 nc w2 where "emit_begin g w = Some (ls, w1)"
      "emit_loop P runb ls False w1 = Inr (oc2, nc, called, w2)"
  using assms
  by (auto simp: operator_call_def split: option.splits sum.splits outcome.splits)

text \<open>
  Claim C1. In a world that is well formed and whose slot lists are in order (every
  world reached from the empty one is), the records called by one emission, in the
  order of the calls, descend strictly by priority or else, at equal priority, ascend
  by registration number; they are allocated records, whose priority no step changes.
\<close>

theorem C1_priority_order:
  assumes "well_formed w" and "order_inv w" and "emit_n n P g w = Inr (oc, called, w')"
  shows "sorted_wrt (\<lambda>x y. priority (slot_heap w x) > priority (slot_heap w y) \<or>
            priority (slot_heap w x) = priority (slot_heap w y) \<and> x < y) called \<and>
         (\<forall>s\<in>set called. s < next_slot w \<and>
            priority (slot_heap w' s) = priority (slot_heap w s))"
proof (cases n)
  case 0 then show ?thesis using assms(3) by simp
next
  case (Suc m)
  let ?R = "\<lambda>x y. priority (slot_heap w x) > priority (slot_heap w y) \<or>
            priority (slot_heap w x) = priority (slot_heap w y) \<and> x < y"
  have ev: "evolves w w'" using emit_n_steps [OF assms(1,3)] by (rule evolves_steps)
  from assms(3) Suc
  have "operator_call P (run_body (\<lambda>g w. untraced (emit_n m P g w))) g w = Inr (oc, called, w')"
    by simp
  then have "sorted_wrt ?R called \<and> (\<forall>s\<in>set called. s < next_slot w)"
  proof (cases rule: operator_call_cases)
    case 1 then show ?thesis by simp
  next
    case (2 ls w1 oc2 nc w2)
    from emit_begin_snapshot [OF assms(1,2) 2(1)]
    have "sorted_wrt ?R ls" "\<forall>s\<in>set ls. s < next_slot w" by simp_all
    then show ?thesis using emit_loop_called [OF 2(2), of ?R] by auto
  qed
  then show ?thesis using ev by (auto simp: evolves_priority)
qed

lemmas run_defs = operator_call_def emit_begin_def cleanup_and_resort_def cleanup_slots_locked_def
  stable_sort_def higher_priority_def slot_guard_def has_tracked_object_def tracked_expired_def
  is_callable_def try_acquire_execution_def call_func_def catch_all_def emit_end_def
  untraced_def

lemma three_slot_emit:
  "\<exists>w'. emit_n (Suc 0) throwing_program 0 three_slot_world = Inr (Normal, [2, 1, 0], w')"
  by (simp add: three_slot_world_def throwing_program_def op_defs empty_world_def run_defs Let_def)

lemma three_slot_world_inv: "well_formed three_slot_world" "order_inv three_slot_world"
  unfolding three_slot_world_def
  by (simp_all add: well_formed_exec order_inv_exec well_formed_empty order_inv_empty
        del: exec.simps)

lemma three_slot_world_priority:
  "priority (slot_heap three_slot_world 0) = 0"
  "priority (slot_heap three_slot_world (Suc 0)) = 50"
  "priority (slot_heap three_slot_world 2) = 100"
  by (simp_all add: three_slot_world_def op_defs empty_world_def Let_def)

lemma equal_priority_world_inv: "well_formed equal_priority_world" "order_inv equal_priority_world"
  unfolding equal_priority_world_def
  by (simp_all add: well_formed_exec order_inv_exec well_formed_empty order_inv_empty
        del: exec.simps)

lemma equal_priority_emit:
  "\<exists>w'. emit_n (Suc 0) quiet_program 0 equal_priority_world = Inr (Normal, [0, 1, 2], w')"
  by (simp add: equal_priority_world_def quiet_program_def op_defs empty_world_def run_defs
        Let_def)

lemma equal_priority_world_priority:
  "priority (slot_heap equal_priority_world 0) = 5"
  "priority (slot_heap equal_priority_world (Suc 0)) = 5"
  "priority (slot_heap equal_priority_world 2) = 5"
  by (simp_all add: equal_priority_world_def op_defs empty_world_def Let_def)

theorem C1_priority_order_witness:
  "(\<exists>w'. emit_n (Suc 0) throwing_program 0 three_slot_world = Inr (Normal, [2, 1, 0], w') \<and>
     sorted_wrt (\<lambda>x y. priority (slot_heap three_slot_world x) > priority (slot_heap three_slot_world y) \<or>
            priority (slot_heap three_slot_world x) = priority (slot_heap three_slot_world y) \<and> x < y)
       [2, 1, 0] \<and>
     priority (slot_heap w' 2) = 100 \<and> priority (slot_heap w' 1) = 50 \<and>
     priority (slot_heap w' 0) = 0) \<and>
   (\<exists>w'. emit_n (Suc 0) quiet_program 0 equal_priority_world = Inr (Normal, [0, 1, 2], w') \<and>
     priority (slot_heap w' 0) = 5 \<and> priority (slot_heap w' 1) = 5 \<and>
     priority (slot_heap w' 2) = 5)"
proof -
  from three_slot_emit obtain w' where
    e: "emit_n (Suc 0) throwing_program 0 three_slot_world = Inr (Normal, [2, 1, 0], w')" ..
  from equal_priority_emit obtain v' where
    f: "emit_n (Suc 0) quiet_program 0 equal_priority_world = Inr (Normal, [0, 1, 2], v')" ..
  from C1_priority_order [OF three_slot_world_inv e] e
    C1_priority_order [OF equal_priority_world_inv f] f
  show ?thesis
    by (auto simp: three_slot_world_priority equal_priority_world_priority)
qed

section \<open>Single-shot slots\<close>

lemma history_exec:
  "history (exec a w) = history w \<or>
   (\<exists>s. history (exec a w) = history w @ [Disconnected s] \<and> slot_refs w s \<noteq> 0 \<and>
        pending_removal (slot_heap (exec a w) s))"
  by (cases a)
     (auto simp: op_defs lock_slot_def lock_impl_def Let_def
        split: option.splits prod.splits if_splits)

lemma once_inv_quiet:
  assumes ev: "evolves w w'" and h: "history w' = history w @ ds"
    and ds: "\<forall>s. Invoked s \<notin> set ds" and oi: "once_inv w"
  shows "once_inv w'"
proof -
  have a: "Invoked s \<notin> set (history w')" if "next_slot w' \<le> s" for s
  proof -
    from that have "next_slot w \<le> s" using ev by (simp add: evolves_def)
    then show ?thesis using oi h ds by (simp add: once_inv_def)
  qed
  have b: "(\<not> executed (slot_heap w' s) \<longrightarrow> Invoked s \<notin> set (history w')) \<and>
        count_list (history w') (Invoked s) \<le> 1"
    if s: "s < next_slot w'" and ss: "single_shot (slot_heap w' s)" for s
  proof -
  have cnt: "count_list (history w') (Invoked s) = count_list (history w) (Invoked s)"
    using h ds by (simp add: count_list_0_iff)
  have mem: "Invoked s \<in> set (history w') \<longleftrightarrow> Invoked s \<in> set (history w)"
    using h ds by auto
  show ?thesis
  proof (cases "s < next_slot w")
    case True
    then have "single_shot (slot_heap w s)"
      "executed (slot_heap w s) \<longrightarrow> executed (slot_heap w' s)"
      using ev ss by (simp_all add: evolves_def)
    then show ?thesis using oi True cnt mem by (auto simp: once_inv_def)
  next
    case False
    then have "Invoked s \<notin> set (history w)" using oi by (simp add: once_inv_def)
    then show ?thesis using cnt mem by (simp add: count_list_0_iff)
  qed
  qed
  show ?thesis unfolding once_inv_def using a b by blast
qed

lemma once_inv_exec: "once_inv w \<Longrightarrow> once_inv (exec a w)"
  using history_exec [of a w] once_inv_quiet [OF evolves_exec, of a w "[]"]
    once_inv_quiet [OF evolves_exec, of a w]
  by auto

lemma once_inv_guard:
  assumes sp: "sp < next_slot w" and oi: "once_inv w"
  shows "once_inv (snd (snd (slot_guard sp w)))"
proof (cases "fst (slot_guard sp w) = Run")
  case False
  have "evolves w (snd (snd (slot_guard sp w)))" using sp by (intro evolves_step step_guard)
  then show ?thesis using oi False once_inv_quiet [where ds = "[]"]
    by (simp add: slot_guard_history)
next
  case True
  let ?w = "snd (snd (slot_guard sp w))"
  have h: "history ?w = history w @ [Invoked sp]" using True by (simp add: slot_guard_history)
  have ex: "single_shot (slot_heap w sp) \<Longrightarrow> \<not> executed (slot_heap w sp) \<and> executed (slot_heap ?w sp)"
    using True
    by (auto simp: slot_guard_def try_acquire_execution_def store_pending_def Let_def
          split: if_splits)
  have a: "Invoked s \<notin> set (history ?w)" if "next_slot ?w \<le> s" for s
    using that oi sp h by (auto simp: once_inv_def slot_guard_fields)
  have b: "(\<not> executed (slot_heap ?w s) \<longrightarrow> Invoked s \<notin> set (history ?w)) \<and>
          count_list (history ?w) (Invoked s) \<le> 1"
    if s: "s < next_slot ?w" and ss: "single_shot (slot_heap ?w s)" for s
  proof -
    from s ss have s': "s < next_slot w" and ss': "single_shot (slot_heap w s)"
      by (simp_all add: slot_guard_fields slot_guard_slot)
    show ?thesis
    proof (cases "s = sp")
      case True
      then have "Invoked sp \<notin> set (history w)" using ex ss' oi s' by (auto simp: once_inv_def)
      then show ?thesis using True ex ss' h by (simp add: count_list_0_iff)
    next
      case False
      then show ?thesis using oi s' ss' h by (auto simp: once_inv_def slot_guard_slot)
    qed
  qed
  show ?thesis unfolding once_inv_def using a b by blast
qed

lemma once_inv_step: "step w w' \<Longrightarrow> once_inv w \<Longrightarrow> once_inv w'"
proof (induction rule: step.induct)
  case (step_exec w a) then show ?case by (simp add: once_inv_exec)
next
  case (step_begin g w ls w1)
  then show ?case using once_inv_quiet [where ds = "[]", OF evolves_step [OF step.step_begin]]
    by (simp add: emit_begin_fields)
next
  case (step_guard sp w) then show ?case by (simp add: once_inv_guard)
next
  case (step_end g ls nc w w1)
  then show ?case using once_inv_quiet [where ds = "[]", OF evolves_step [OF step.step_end]]
    by (simp add: emit_end_fields)
qed (auto simp: once_inv_def)

lemma once_inv_steps: "step\<^sup>*\<^sup>* w w' \<Longrightarrow> once_inv w \<Longrightarrow> once_inv w'"
  by (induction rule: rtranclp_induct) (auto dest: once_inv_step)

lemma once_inv_empty: "once_inv empty_world"
  by (simp add: once_inv_def empty_world_def)

lemma guard_run_single_shot:
  "fst (slot_guard sp w) = Run \<Longrightarrow> single_shot (slot_heap w sp) \<Longrightarrow>
   \<not> executed (slot_heap w sp) \<and> executed (slot_heap (snd (snd (slot_guard sp w))) sp) \<and>
   pending_removal (slot_heap (snd (snd (slot_guard sp w))) sp) \<and> fst (snd (slot_guard sp w))"
  by (auto simp: slot_guard_def try_acquire_execution_def store_pending_def Let_def
        split: if_splits)

lemma guard_skip_executed:
  "single_shot (slot_heap w sp) \<Longrightarrow> executed (slot_heap w sp) \<Longrightarrow> fst (slot_guard sp w) = Skip"
  by (auto simp: slot_guard_def try_acquire_execution_def store_pending_def Let_def)

lemma emit_loop_run_calls:
  "emit_loop P runb (sp # rest) nc w = Inr r \<Longrightarrow> fst (slot_guard sp w) = Run \<Longrightarrow>
   \<exists>oc2 w2. call_func P runb (func (slot_heap (snd (snd (slot_guard sp w))) sp))
               (snd (snd (slot_guard sp w))) = Inr (oc2, w2)"
  by (cases "slot_guard sp w") (auto simp: catch_all_def split: sum.splits)

text \<open>
  Claim C2. \<open>try_acquire_execution\<close> returns true without a change for a slot that is not
  single-shot; for a single-shot slot it returns true and sets the executed flag when
  the flag was false, and returns false without a change when it was true, so a call
  after the winning one loses. A loop iteration that goes on to the call of a
  single-shot slot found the flag false, has set it, has set pending-removal and
  \<^verbatim>\<open>need_cleanup\<close>, and makes the call in that world; an iteration that skips appends no
  call, and a single-shot slot whose flag is set is skipped. Across a whole run (any
  sequence of operations and emissions, re-entrant ones included) from a well-formed
  world satisfying the history invariant, as the empty world does, the history holds at
  most one call of each single-shot slot.
\<close>

theorem C2_single_shot:
  "(\<not> single_shot sl \<longrightarrow> try_acquire_execution sl = (True, sl)) \<and>
   (single_shot sl \<and> \<not> executed sl \<longrightarrow>
      try_acquire_execution sl = (True, sl\<lparr>executed := True\<rparr>)) \<and>
   (single_shot sl \<and> executed sl \<longrightarrow> try_acquire_execution sl = (False, sl)) \<and>
   (single_shot sl \<longrightarrow> \<not> fst (try_acquire_execution (snd (try_acquire_execution sl)))) \<and>
   (fst (slot_guard sp w) = Run \<and> single_shot (slot_heap w sp) \<longrightarrow>
      \<not> executed (slot_heap w sp) \<and> executed (slot_heap (snd (snd (slot_guard sp w))) sp) \<and>
      pending_removal (slot_heap (snd (snd (slot_guard sp w))) sp) \<and> fst (snd (slot_guard sp w))) \<and>
   (emit_loop P runb (sp # rest) nc w = Inr r \<and> fst (slot_guard sp w) = Run \<longrightarrow>
      (\<exists>oc2 w2. call_func P runb (func (slot_heap (snd (snd (slot_guard sp w))) sp))
                  (snd (snd (slot_guard sp w))) = Inr (oc2, w2))) \<and>
   (fst (slot_guard sp w) = Skip \<longrightarrow> history (snd (snd (slot_guard sp w))) = history w) \<and>
   (single_shot (slot_heap w sp) \<and> executed (slot_heap w sp) \<longrightarrow> fst (slot_guard sp w) = Skip) \<and>
   (well_formed w0 \<and> once_inv w0 \<and> run n P acts w0 = Inr (oc, w') \<and>
      s < next_slot w' \<and> single_shot (slot_heap w' s) \<longrightarrow>
      count_list (history w') (Invoked s) \<le> 1)"
proof -
  have g: "well_formed w0 \<and> once_inv w0 \<and> run n P acts w0 = Inr (oc, w') \<and>
      s < next_slot w' \<and> single_shot (slot_heap w' s) \<longrightarrow>
      count_list (history w') (Invoked s) \<le> 1"
  proof (intro impI, elim conjE)
    assume a: "well_formed w0" "once_inv w0" "run n P acts w0 = Inr (oc, w')"
      "s < next_slot w'" "single_shot (slot_heap w' s)"
    have "once_inv w'" using run_steps [OF a(1,3)] a(2) by (rule once_inv_steps)
    then show "count_list (history w') (Invoked s) \<le> 1" using a(4,5) by (simp add: once_inv_def)
  qed
  have t: "(\<not> single_shot sl \<longrightarrow> try_acquire_execution sl = (True, sl)) \<and>
   (single_shot sl \<and> \<not> executed sl \<longrightarrow>
      try_acquire_execution sl = (True, sl\<lparr>executed := True\<rparr>)) \<and>
   (single_shot sl \<and> executed sl \<longrightarrow> try_acquire_execution sl = (False, sl)) \<and>
   (single_shot sl \<longrightarrow> \<not> fst (try_acquire_execution (snd (try_acquire_execution sl))))"
    by (simp add: try_acquire_execution_def)
  show ?thesis
    using g t guard_run_single_shot [of sp w] guard_skip_executed [of w sp]
      emit_loop_run_calls [of P runb sp rest nc w r] slot_guard_history [of sp w]
    by (simp only: simp_thms) auto
qed

lemma once_world_inv: "well_formed once_world" "once_inv once_world"
  unfolding once_world_def
  by (simp_all add: well_formed_exec once_inv_exec well_formed_empty once_inv_empty
        del: exec.simps)

lemma once_world_run:
  "\<exists>w'. run (Suc 0) quiet_program [Emit 0, Emit 0, Emit 0] once_world = Inr (Normal, w') \<and>
     history w' = [Invoked 0] \<and> next_slot w' = 1 \<and> single_shot (slot_heap w' 0)"
  by (simp add: run_def once_world_def quiet_program_def op_defs empty_world_def run_defs
        Let_def)

theorem C2_single_shot_witness:
  "\<exists>w'. run (Suc 0) quiet_program [Emit 0, Emit 0, Emit 0] once_world = Inr (Normal, w') \<and>
     history w' = [Invoked 0] \<and> count_list (history w') (Invoked 0) \<le> 1"
proof -
  from once_world_run obtain w' where
    r: "run (Suc 0) quiet_program [Emit 0, Emit 0, Emit 0] once_world = Inr (Normal, w')"
    and h: "history w' = [Invoked 0]" "next_slot w' = 1" "single_shot (slot_heap w' 0)"
    by blast
  from C2_single_shot [where ?w0.0 = once_world and n = "Suc 0" and P = quiet_program
      and acts = "[Emit 0, Emit 0, Emit 0]" and oc = Normal and w' = w' and s = 0]
    once_world_inv r h
  show ?thesis by auto
qed

section \<open>Disconnected slots\<close>

lemma no_call_append:
  "no_call_after_disconnect (h @ [e]) =
     (no_call_after_disconnect h \<and> (\<forall>s. e = Invoked s \<longrightarrow> Disconnected s \<notin> set h))"
proof (induction h)
  case Nil show ?case by (cases e) auto
next
  case (Cons x h)
  then show ?case by (cases x) auto
qed

lemma guard_run_not_pending:
  "fst (slot_guard sp w) = Run \<Longrightarrow> \<not> pending_removal (slot_heap w sp)"
  by (auto simp: slot_guard_def is_callable_def try_acquire_execution_def Let_def
        split: if_splits)

lemma evolves_pending:
  "evolves w w' \<Longrightarrow> s < next_slot w \<Longrightarrow> pending_removal (slot_heap w s) \<Longrightarrow>
   pending_removal (slot_heap w' s)"
  by (simp add: evolves_def)

lemma evolves_next_slot: "evolves w w' \<Longrightarrow> next_slot w \<le> next_slot w'"
  by (simp add: evolves_def)

lemma disc_inv_quiet:
  assumes ev: "evolves w w'" and h: "history w' = history w" and di: "disc_inv w"
  shows "disc_inv w'"
proof -
  have "s < next_slot w' \<and> pending_removal (slot_heap w' s)"
    if "Disconnected s \<in> set (history w')" for s
  proof -
    from that h di have "s < next_slot w" "pending_removal (slot_heap w s)"
      by (simp_all add: disc_inv_def)
    then show ?thesis using evolves_pending [OF ev] evolves_next_slot [OF ev] by force
  qed
  then show ?thesis using di h by (simp add: disc_inv_def)
qed

lemma disc_inv_grow:
  assumes ev: "evolves w w'" and h: "history w' = history w @ [e]" and di: "disc_inv w"
    and e: "\<And>s. e = Invoked s \<Longrightarrow> Disconnected s \<notin> set (history w)"
    and d: "\<And>s. e = Disconnected s \<Longrightarrow> s < next_slot w' \<and> pending_removal (slot_heap w' s)"
  shows "disc_inv w'"
proof -
  have "s < next_slot w' \<and> pending_removal (slot_heap w' s)"
    if "Disconnected s \<in> set (history w')" for s
  proof (cases "e = Disconnected s")
    case True then show ?thesis by (rule d)
  next
    case False
    with that h di have "s < next_slot w" "pending_removal (slot_heap w s)"
      by (simp_all add: disc_inv_def)
    then show ?thesis using evolves_pending [OF ev] evolves_next_slot [OF ev] by force
  qed
  moreover have "no_call_after_disconnect (history w')"
    using di h e by (auto simp: disc_inv_def no_call_append)
  ultimately show ?thesis by (simp add: disc_inv_def)
qed

lemma disc_inv_exec:
  assumes wf: "well_formed w" and di: "disc_inv w"
  shows "disc_inv (exec a w)"
proof -
  have ev: "evolves w (exec a w)" by (rule evolves_exec)
  from history_exec [of a w] show ?thesis
  proof (elim disjE exE conjE)
    assume "history (exec a w) = history w"
    with ev show ?thesis using di by (rule disc_inv_quiet)
  next
    fix s assume h: "history (exec a w) = history w @ [Disconnected s]"
      and r: "slot_refs w s \<noteq> 0" and p: "pending_removal (slot_heap (exec a w) s)"
    have "\<not> next_slot w \<le> s" using wf r by (auto simp: well_formed_def)
    then have "s < next_slot (exec a w)" using evolves_next_slot [OF ev] by simp
    then show ?thesis using p by (intro disc_inv_grow [OF ev h di]) auto
  qed
qed

lemma disc_inv_guard:
  assumes sp: "sp < next_slot w" and di: "disc_inv w"
  shows "disc_inv (snd (snd (slot_guard sp w)))"
proof -
  have ev: "evolves w (snd (snd (slot_guard sp w)))" using sp by (intro evolves_step step_guard)
  show ?thesis
  proof (cases "fst (slot_guard sp w) = Run")
    case False
    then show ?thesis using disc_inv_quiet [OF ev _ di] by (simp add: slot_guard_history)
  next
    case True
    then have "\<not> pending_removal (slot_heap w sp)" by (rule guard_run_not_pending)
    then have "Disconnected sp \<notin> set (history w)" using di by (auto simp: disc_inv_def)
    moreover have "history (snd (snd (slot_guard sp w))) = history w @ [Invoked sp]"
      using True by (simp add: slot_guard_history)
    ultimately show ?thesis by (intro disc_inv_grow [OF ev _ di]) auto
  qed
qed

lemma disc_inv_step: "step w w' \<Longrightarrow> well_formed w \<Longrightarrow> disc_inv w \<Longrightarrow> disc_inv w'"
proof (induction rule: step.induct)
  case (step_exec w a) then show ?case by (simp add: disc_inv_exec)
next
  case (step_begin g w ls w1)
  then show ?case using disc_inv_quiet [OF evolves_step [OF step.step_begin]]
    by (simp add: emit_begin_fields)
next
  case (step_guard sp w) then show ?case by (simp add: disc_inv_guard)
next
  case (step_end g ls nc w w1)
  then show ?case using disc_inv_quiet [OF evolves_step [OF step.step_end]]
    by (simp add: emit_end_fields)
qed (auto simp: disc_inv_def)

lemma disc_inv_steps:
  "step\<^sup>*\<^sup>* w w' \<Longrightarrow> well_formed w \<Longrightarrow> disc_inv w \<Longrightarrow> disc_inv w'"
  by (induction rule: rtranclp_induct) (auto dest: disc_inv_step well_formed_steps)

lemma disc_inv_empty: "disc_inv empty_world"
  by (simp add: disc_inv_def empty_world_def)

lemma pending_step_no_call:
  assumes "step w w'" and "pending_removal (slot_heap w s)"
  shows "\<exists>ext. history w' = history w @ ext \<and> Invoked s \<notin> set ext"
  using assms
proof (induction rule: step.induct)
  case (step_exec w a)
  then show ?case using history_exec [of a w] by auto
next
  case (step_begin g w ls w1) then show ?case by (simp add: emit_begin_fields)
next
  case (step_guard sp w)
  then show ?case using guard_run_not_pending [of sp w] by (auto simp: slot_guard_history)
next
  case (step_end g ls nc w w1) then show ?case by (simp add: emit_end_fields)
qed auto

lemma pending_steps_no_call:
  assumes "step\<^sup>*\<^sup>* w w'" and "s < next_slot w" and "pending_removal (slot_heap w s)"
  shows "\<exists>ext. history w' = history w @ ext \<and> Invoked s \<notin> set ext"
  using assms
proof (induction rule: rtranclp_induct)
  case base show ?case by simp
next
  case (step w1 w2)
  from step.IH [OF step.prems] obtain ext where
    e: "history w1 = history w @ ext" "Invoked s \<notin> set ext" by blast
  have "pending_removal (slot_heap w1 s)"
    using evolves_pending [OF evolves_steps [OF step.hyps(1)] step.prems] .
  from pending_step_no_call [OF step.hyps(2) this] obtain ext2 where
    "history w2 = history w1 @ ext2" "Invoked s \<notin> set ext2" by blast
  with e show ?case by auto
qed

lemma well_formed_disconnect: "well_formed w \<Longrightarrow> well_formed (disconnect c w)"
  by (auto simp: well_formed_def disconnect_def disconnect_slot_def set_dirty_def
        store_pending_def split: option.splits)

lemma disconnect_effect:
  assumes "lock_impl w c = Some a" "lock_slot w c = Some s"
  shows "\<not> is_connected (disconnect c w) c" "pending_removal (slot_heap (disconnect c w) s)"
    "dirty (impls (disconnect c w) a)" "next_slot (disconnect c w) = next_slot w"
    "slot_refs w s \<noteq> 0" "conn_slot c = Some s"
  using assms
  by (auto simp: is_connected_def disconnect_def disconnect_slot_def set_dirty_def
        store_pending_def lock_slot_def lock_impl_def split: option.splits if_splits)

text \<open>
  Claim C4. \<open>disconnect\<close> on a handle whose shared state and slot record both still exist
  sets the slot's pending-removal flag and the dirty flag, and \<open>is_connected\<close> is false
  afterwards. In every world reached from there by any run, \<open>is_connected\<close> is still
  false and the history has gained no call of that slot. And in every run from a
  well-formed world satisfying the history invariant, as the empty world does, no call of
  a slot follows a disconnect of that slot in the history, whether the disconnect came
  from the main program, from another callback or from the slot's own callback, in the
  same emission or a later one.
\<close>

theorem C4_disconnect:
  "(lock_impl w c = Some a \<and> lock_slot w c = Some s \<longrightarrow>
      \<not> is_connected (disconnect c w) c \<and> pending_removal (slot_heap (disconnect c w) s) \<and>
      dirty (impls (disconnect c w) a)) \<and>
   (well_formed w \<and> lock_impl w c = Some a \<and> lock_slot w c = Some s \<and>
    run n P acts (disconnect c w) = Inr (oc, w') \<longrightarrow>
      \<not> is_connected w' c \<and>
      (\<exists>ext. history w' = history (disconnect c w) @ ext \<and> Invoked s \<notin> set ext)) \<and>
   (well_formed w0 \<and> disc_inv w0 \<and> run n P acts w0 = Inr (oc, w1) \<longrightarrow>
      no_call_after_disconnect (history w1))"
proof -
  have 1: "\<not> is_connected (disconnect c w) c \<and> pending_removal (slot_heap (disconnect c w) s) \<and>
      dirty (impls (disconnect c w) a)"
    if "lock_impl w c = Some a \<and> lock_slot w c = Some s"
    using that by (simp add: disconnect_effect)
  have 3: "no_call_after_disconnect (history w1)"
    if "well_formed w0 \<and> disc_inv w0 \<and> run n P acts w0 = Inr (oc, w1)"
  proof -
    from that have "disc_inv w1" using disc_inv_steps [OF run_steps] by blast
    then show ?thesis by (simp add: disc_inv_def)
  qed
  have 2: "\<not> is_connected w' c \<and>
      (\<exists>ext. history w' = history (disconnect c w) @ ext \<and> Invoked s \<notin> set ext)"
    if a: "well_formed w \<and> lock_impl w c = Some a \<and> lock_slot w c = Some s \<and>
      run n P acts (disconnect c w) = Inr (oc, w')"
  proof -
    let ?w = "disconnect c w"
    have wf: "well_formed ?w" using a by (simp add: well_formed_disconnect)
    have st: "step\<^sup>*\<^sup>* ?w w'" using run_steps [OF wf] a by blast
    have "\<not> next_slot w \<le> s"
      using a disconnect_effect(5) [of w c a s] by (auto simp: well_formed_def)
    then have s: "s < next_slot ?w" using a by (simp add: disconnect_effect)
    have p: "pending_removal (slot_heap ?w s)" using a by (simp add: disconnect_effect)
    have "pending_removal (slot_heap w' s)"
      using evolves_pending [OF evolves_steps [OF st] s p] .
    moreover have "conn_slot c = Some s" using a disconnect_effect(6) by blast
    ultimately have "\<not> is_connected w' c"
      by (simp add: is_connected_def lock_slot_def)
    then show ?thesis using pending_steps_no_call [OF st s p] by simp
  qed
  show ?thesis using 1 2 3 by blast
qed

lemma one_slot_world_inv: "well_formed one_slot_world" "disc_inv one_slot_world"
  unfolding one_slot_world_def
  by (simp_all add: well_formed_exec disc_inv_exec well_formed_empty disc_inv_empty
        del: exec.simps)

lemma self_disconnect_run:
  "\<exists>w'. run (Suc (Suc 0)) self_disconnect_program [Emit 0, Emit 0] one_slot_world = Inr (Normal, w') \<and>
     history w' = [Invoked 0, Disconnected 0]"
  by (simp add: run_def one_slot_world_def self_disconnect_program_def op_defs empty_world_def
        run_defs lock_slot_def lock_impl_def Let_def)

lemma one_slot_world_handle:
  "lock_impl one_slot_world (conns one_slot_world 0) = Some 0"
  "lock_slot one_slot_world (conns one_slot_world 0) = Some 0"
  by (simp_all add: one_slot_world_def op_defs empty_world_def lock_slot_def lock_impl_def Let_def)

lemma after_disconnect_run:
  "\<exists>w'. run (Suc 0) quiet_program [Emit 0, Emit 0]
          (disconnect (conns one_slot_world 0) one_slot_world) = Inr (Normal, w') \<and>
        history w' = [Disconnected 0]"
  by (simp add: run_def one_slot_world_def quiet_program_def op_defs empty_world_def
        run_defs lock_slot_def lock_impl_def Let_def)

theorem C4_disconnect_witness:
  "\<not> is_connected (disconnect (conns one_slot_world 0) one_slot_world) (conns one_slot_world 0) \<and>
   (\<exists>w'. run (Suc 0) quiet_program [Emit 0, Emit 0]
            (disconnect (conns one_slot_world 0) one_slot_world) = Inr (Normal, w') \<and>
          history w' = [Disconnected 0] \<and> \<not> is_connected w' (conns one_slot_world 0)) \<and>
   (\<exists>w1. run (Suc (Suc 0)) self_disconnect_program [Emit 0, Emit 0] one_slot_world
            = Inr (Normal, w1) \<and>
          history w1 = [Invoked 0, Disconnected 0] \<and> no_call_after_disconnect (history w1))"
proof -
  from after_disconnect_run obtain w' where
    r: "run (Suc 0) quiet_program [Emit 0, Emit 0]
          (disconnect (conns one_slot_world 0) one_slot_world) = Inr (Normal, w')"
    and h: "history w' = [Disconnected 0]" by blast
  from self_disconnect_run obtain w1 where
    r1: "run (Suc (Suc 0)) self_disconnect_program [Emit 0, Emit 0] one_slot_world = Inr (Normal, w1)"
    and h1: "history w1 = [Invoked 0, Disconnected 0]" by blast
  from C4_disconnect [where w = one_slot_world and c = "conns one_slot_world 0" and a = 0
      and s = 0 and n = "Suc 0" and P = quiet_program and acts = "[Emit 0, Emit 0]"
      and oc = Normal and w' = w']
    one_slot_world_handle one_slot_world_inv r
  have 1: "\<not> is_connected (disconnect (conns one_slot_world 0) one_slot_world) (conns one_slot_world 0)"
    and 2: "\<not> is_connected w' (conns one_slot_world 0)" by simp_all
  from C4_disconnect [where ?w0.0 = one_slot_world and n = "Suc (Suc 0)"
      and P = self_disconnect_program and acts = "[Emit 0, Emit 0]" and oc = Normal and ?w1.0 = w1]
    one_slot_world_inv r1
  have 3: "no_call_after_disconnect (history w1)" by simp
  from 1 2 3 r h r1 h1 show ?thesis by blast
qed

section \<open>Exceptions in callbacks\<close>

lemma catch_all_normal: "catch_all r = Inr (oc, w) \<Longrightarrow> oc = Normal"
  by (auto simp: catch_all_def split: sum.splits)

lemma emit_loop_normal:
  "emit_loop P runb ls nc w = Inr (oc, nc', called, w') \<Longrightarrow> oc = Normal"
proof (induction ls arbitrary: nc w called)
  case Nil then show ?case by simp
next
  case (Cons sp rest)
  obtain d flag w1 where g: "slot_guard sp w = (d, flag, w1)" by (cases "slot_guard sp w") auto
  show ?case
  proof (cases d)
    case Skip
    then show ?thesis using Cons g by auto
  next
    case Run
    from Cons.prems g Run obtain oc2 w2 where
      c: "catch_all (call_func P runb (func (slot_heap w1 sp)) w1) = Inr (oc2, w2)"
      by (auto split: sum.splits)
    then have "oc2 = Normal" by (rule catch_all_normal)
    then show ?thesis using Cons g Run c by (auto split: sum.splits)
  qed
qed

lemma operator_call_normal:
  assumes "operator_call P runb g w = Inr (oc, called, w')"
  shows "oc = Normal"
  using assms
proof (cases rule: operator_call_cases)
  case 1 then show ?thesis by simp
next
  case (2 ls w1 oc2 nc w2)
  have "oc2 = Normal" using 2(2) by (rule emit_loop_normal)
  then show ?thesis using assms 2
    by (auto simp: operator_call_def split: sum.splits)
qed

lemma emit_n_normal: "emit_n n P g w = Inr (oc, called, w') \<Longrightarrow> oc = Normal"
  by (cases n) (auto dest: operator_call_normal)

lemma catch_all_agree:
  "map_sum id snd r = map_sum id snd r' \<Longrightarrow> catch_all r = catch_all r'"
  by (cases r; cases r') (auto simp: catch_all_def)

lemma call_func_agree:
  assumes "\<forall>acts w. map_sum id snd (runb acts w) = map_sum id snd (runb' acts w)"
  shows "map_sum id snd (call_func P runb f w) = map_sum id snd (call_func P runb' f w)"
proof (cases f)
  case (SharedMember wk k)
  show ?thesis
  proof (cases wk)
    case None
    then show ?thesis using SharedMember by (simp add: call_func_def)
  next
    case (Some ob)
    let ?w1 = "w\<lparr>obj_refs := (obj_refs w)(ob := Suc (obj_refs w ob))\<rparr>"
    have "map_sum id snd (runb (P k ?w1) ?w1) = map_sum id snd (runb' (P k ?w1) ?w1)"
      using assms by blast
    then show ?thesis using SharedMember Some
      by (cases "runb (P k ?w1) ?w1"; cases "runb' (P k ?w1) ?w1")
         (auto simp: call_func_def Let_def)
  qed
qed (use assms in \<open>auto simp: call_func_def\<close>)

lemma emit_loop_agree:
  assumes "\<forall>acts w. map_sum id snd (runb acts w) = map_sum id snd (runb' acts w)"
  shows "emit_loop P runb ls nc w = emit_loop P runb' ls nc w"
proof (induction ls arbitrary: nc w)
  case Nil show ?case by simp
next
  case (Cons sp rest)
  have "\<And>f w. catch_all (call_func P runb f w) = catch_all (call_func P runb' f w)"
    by (rule catch_all_agree) (rule call_func_agree [OF assms])
  then show ?case using Cons.IH
    by (auto split: prod.splits decision.splits sum.splits outcome.splits)
qed

lemma sigs_exec_plain: "plain_action a \<Longrightarrow> sigs (exec a w) = sigs w"
  by (cases a) (auto simp: op_defs Let_def split: option.splits prod.splits)

lemma run_action_plain:
  "plain_action a \<Longrightarrow> \<exists>oc w'. run_action emitf a w = Inr (oc, w') \<and> sigs w' = sigs w"
  using sigs_exec_plain [of a w] by (cases a) (simp_all del: exec.simps)

lemma run_body_plain:
  "list_all plain_action acts \<Longrightarrow>
   \<exists>oc w'. run_body emitf acts w = Inr (oc, w') \<and> sigs w' = sigs w"
proof (induction acts arbitrary: w)
  case Nil show ?case by simp
next
  case (Cons a acts)
  from Cons.prems have pa: "plain_action a" and pr: "list_all plain_action acts" by simp_all
  from run_action_plain [OF pa] obtain oc1 w1 where
    a: "run_action emitf a w = Inr (oc1, w1)" "sigs w1 = sigs w" by blast
  from Cons.IH [OF pr] obtain oc2 w2 where
    b: "run_body emitf acts w1 = Inr (oc2, w2)" "sigs w2 = sigs w1" by blast
  show ?case using a b by (cases oc1) auto
qed

lemma call_func_plain:
  assumes "plain_program P"
  shows "\<exists>oc w'. call_func P (run_body emitf) f w = Inr (oc, w') \<and> sigs w' = sigs w"
proof -
  have body: "\<And>k w0 w. \<exists>oc w'. run_body emitf (P k w0) w = Inr (oc, w') \<and> sigs w' = sigs w"
    using assms by (intro run_body_plain) (simp add: plain_program_def)
  show ?thesis
  proof (cases f)
    case (Plain k) then show ?thesis using body [of k w w] by (simp add: call_func_def)
  next
    case (RawMember ob k) then show ?thesis using body [of k w w] by (simp add: call_func_def)
  next
    case (SharedMember wk k)
    show ?thesis
    proof (cases wk)
      case None
      then show ?thesis using SharedMember by (simp add: call_func_def)
    next
      case (Some ob)
      let ?w1 = "w\<lparr>obj_refs := (obj_refs w)(ob := Suc (obj_refs w ob))\<rparr>"
      from body [of k ?w1 ?w1] obtain oc w2 where
        "run_body emitf (P k ?w1) ?w1 = Inr (oc, w2)" "sigs w2 = sigs ?w1" by blast
      then show ?thesis using SharedMember Some by (simp add: call_func_def Let_def)
    qed
  qed
qed

lemma emit_loop_plain:
  assumes "plain_program P"
  shows "\<exists>nc' called w'. emit_loop P (run_body emitf) ls nc w = Inr (Normal, nc', called, w') \<and>
           sigs w' = sigs w"
proof (induction ls arbitrary: nc w)
  case Nil show ?case by simp
next
  case (Cons sp rest)
  obtain d flag w1 where g: "slot_guard sp w = (d, flag, w1)" by (cases "slot_guard sp w") auto
  have s1: "sigs w1 = sigs w" using slot_guard_fields(4) [of sp w] g by simp
  show ?case
  proof (cases d)
    case Skip
    then show ?thesis using Cons.IH [of "nc \<or> flag" w1] g s1 by auto
  next
    case Run
    from call_func_plain [OF assms, of emitf "func (slot_heap w1 sp)" w1] obtain oc2 w2 where
      c: "call_func P (run_body emitf) (func (slot_heap w1 sp)) w1 = Inr (oc2, w2)"
      "sigs w2 = sigs w1" by blast
    from Cons.IH [of "nc \<or> flag" w2] obtain nc' called w' where
      "emit_loop P (run_body emitf) rest (nc \<or> flag) w2 = Inr (Normal, nc', called, w')"
      "sigs w' = sigs w2" by blast
    then show ?thesis using g Run c s1 by (simp add: catch_all_def)
  qed
qed

lemma operator_call_plain:
  assumes "plain_program P"
  shows "\<exists>called w'. operator_call P (run_body emitf) g w = Inr (Normal, called, w')"
proof (cases "emit_begin g w")
  case None then show ?thesis by (simp add: operator_call_def)
next
  case (Some p)
  obtain ls w1 where p: "p = (ls, w1)" by (cases p)
  have b: "emit_begin g w = Some (ls, w1)" using Some p by simp
  then obtain a where a: "sigs w g = Some a" by (auto elim: emit_begin_cases)
  from emit_loop_plain [OF assms, of emitf ls False w1] obtain nc called w2 where
    l: "emit_loop P (run_body emitf) ls False w1 = Inr (Normal, nc, called, w2)"
    "sigs w2 = sigs w1" by blast
  then have "sigs w2 g = Some a" using a emit_begin_fields(5) [OF b] by simp
  then have "\<exists>w3. emit_end g ls nc w2 = Inr w3" by (cases nc) (simp_all add: emit_end_def Let_def)
  then obtain w3 where "emit_end g ls nc w2 = Inr w3" ..
  then show ?thesis using b l by (simp add: operator_call_def)
qed

text \<open>
  Claim C3. A \<^verbatim>\<open>throw\<close> ends the body it occurs in with an exception in flight. An
  emission that returns never returns with one: the \<^verbatim>\<open>catch(...)\<close> around each call
  discards it. The loop does not even see whether a callback threw: two ways of running
  callback bodies that reach the same faults and the same worlds, differing only in
  whether they report an exception, give the same loop result, so the remaining slots
  are guarded and called exactly as they would be had the callback returned normally. And
  when no callback fires a signal or constructs, moves or destroys one, the emission
  does return, normally, whatever the callbacks throw.
\<close>

theorem C3_exceptions_swallowed:
  "run_body emitf (Throw # acts) w = Inr (Threw, w) \<and>
   (emit_n n P g w = Inr (oc, called, w') \<longrightarrow> oc = Normal) \<and>
   ((\<forall>body v. map_sum id snd (runb body v) = map_sum id snd (runb' body v)) \<longrightarrow>
      emit_loop P runb ls nc w = emit_loop P runb' ls nc w) \<and>
   (plain_program P \<longrightarrow> (\<exists>called w'. emit_n (Suc n) P g w = Inr (Normal, called, w')))"
  using emit_n_normal [of n P g w oc called w'] emit_loop_agree [of runb runb' P ls nc w]
    operator_call_plain [of P "\<lambda>g w. untraced (emit_n n P g w)" g w]
  by simp

lemma throwing_program_plain: "plain_program throwing_program"
  by (simp add: plain_program_def throwing_program_def)

theorem C3_exceptions_swallowed_witness:
  "run_body (\<lambda>g w. Inl OutOfFuel) (throwing_program 2 three_slot_world) three_slot_world
     = Inr (Threw, three_slot_world) \<and>
   func (slot_heap three_slot_world 1) = Plain 2 \<and>
   (\<exists>w'. emit_n (Suc 0) throwing_program 0 three_slot_world = Inr (Normal, [2, 1, 0], w')) \<and>
   emit_loop throwing_program (run_body (\<lambda>g w. Inl OutOfFuel)) [2, 1, 0] False three_slot_world =
   emit_loop throwing_program (\<lambda>acts w. catch_all (run_body (\<lambda>g w. Inl OutOfFuel) acts w))
     [2, 1, 0] False three_slot_world"
proof -
  have a: "\<forall>acts w. map_sum id snd (run_body (\<lambda>g w. Inl OutOfFuel) acts w) =
      map_sum id snd (catch_all (run_body (\<lambda>g w. Inl OutOfFuel) acts w))"
    by (auto simp: catch_all_def split: sum.splits)
  have f: "func (slot_heap three_slot_world 1) = Plain 2"
    by (simp add: three_slot_world_def op_defs empty_world_def Let_def)
  from C3_exceptions_swallowed [where emitf = "\<lambda>g w. Inl OutOfFuel" and acts = "[]"
      and w = three_slot_world and n = 0 and P = throwing_program and g = 0
      and runb = "run_body (\<lambda>g w. Inl OutOfFuel)"
      and runb' = "\<lambda>acts w. catch_all (run_body (\<lambda>g w. Inl OutOfFuel) acts w)"
      and ls = "[2, 1, 0]" and nc = False]
    a f throwing_program_plain three_slot_emit
  show ?thesis by (simp add: throwing_program_def)
qed

section \<open>Disconnecting all slots from inside a callback\<close>

lemma guard_pending_skip:
  "pending_removal (slot_heap w sp) \<Longrightarrow> fst (slot_guard sp w) = Skip"
  by (auto simp: slot_guard_def is_callable_def Let_def)

lemma emit_loop_Cons_skip:
  "fst (slot_guard sp w) = Skip \<Longrightarrow>
   emit_loop P runb (sp # rest) nc w =
     emit_loop P runb rest (nc \<or> fst (snd (slot_guard sp w))) (snd (snd (slot_guard sp w)))"
  by (cases "slot_guard sp w") simp

lemma emit_loop_Cons_run:
  assumes "fst (slot_guard sp w) = Run"
    and "emit_loop P runb (sp # rest) nc w = Inr (oc, nc', called, w')"
  obtains oc2 w2 called2 where
    "call_func P runb (func (slot_heap (snd (snd (slot_guard sp w))) sp))
       (snd (snd (slot_guard sp w))) = Inr (oc2, w2)"
    "emit_loop P runb rest (nc \<or> fst (snd (slot_guard sp w))) w2 = Inr (oc, nc', called2, w')"
    "called = sp # called2"
proof -
  obtain d flag w1 where g: "slot_guard sp w = (d, flag, w1)" by (cases "slot_guard sp w") auto
  then have d: "d = Run" using assms(1) by simp
  from assms(2) g d obtain oc2 w2 where
    c: "call_func P runb (func (slot_heap w1 sp)) w1 = Inr (oc2, w2)"
    by (auto simp: catch_all_def split: sum.splits)
  from assms(2) g d c obtain called2 where
    "emit_loop P runb rest (nc \<or> flag) w2 = Inr (oc, nc', called2, w')" "called = sp # called2"
    by (auto simp: catch_all_def split: sum.splits)
  then show ?thesis using that c g by simp
qed

lemma emit_loop_all_pending:
  assumes "\<forall>s\<in>set ls. pending_removal (slot_heap w s)"
    and "emit_loop P runb ls nc w = Inr (oc, nc', called, w')"
  shows "called = [] \<and> history w' = history w \<and>
         (\<forall>s. pending_removal (slot_heap w s) \<longrightarrow> pending_removal (slot_heap w' s))"
  using assms
proof (induction ls arbitrary: nc w)
  case Nil then show ?case by simp
next
  case (Cons sp rest)
  let ?gw = "snd (snd (slot_guard sp w))"
  have d: "fst (slot_guard sp w) = Skip" using guard_pending_skip [of w sp] Cons.prems(1) by simp
  have m: "\<forall>s. pending_removal (slot_heap w s) \<longrightarrow> pending_removal (slot_heap ?gw s)"
    by (simp add: slot_guard_slot)
  then have "\<forall>s\<in>set rest. pending_removal (slot_heap ?gw s)"
    using Cons.prems(1) by simp
  moreover have "emit_loop P runb rest (nc \<or> fst (snd (slot_guard sp w))) ?gw
      = Inr (oc, nc', called, w')"
    using Cons.prems(2) emit_loop_Cons_skip [OF d, of P runb rest nc] by simp
  ultimately have "called = [] \<and> history w' = history ?gw \<and>
      (\<forall>s. pending_removal (slot_heap ?gw s) \<longrightarrow> pending_removal (slot_heap w' s))"
    by (rule Cons.IH)
  then show ?case using d m by (simp add: slot_guard_history)
qed

lemma disconnect_all_effect:
  assumes "sigs w g = Some a"
  shows "\<forall>s\<in>set (slots (impls w a)). pending_removal (slot_heap (disconnect_all g w) s)"
    "pending_removal (slot_heap w s) \<Longrightarrow> pending_removal (slot_heap (disconnect_all g w) s)"
    "next_slot (disconnect_all g w) = next_slot w"
    "slots (impls (disconnect_all g w) a) = []"
  using assms by (simp_all add: disconnect_all_def mark_all_closed Let_def)

lemma run_fuel_steps:
  "well_formed w \<Longrightarrow> run_body (\<lambda>g w. untraced (emit_n n P g w)) acts w = Inr (oc, w') \<Longrightarrow>
   step\<^sup>*\<^sup>* w w'"
  using run_steps [of w n P acts oc w'] by (simp add: run_def)

lemma body_after_disconnect_all:
  assumes wf: "well_formed v" and g: "sigs v g = Some a"
    and rest: "\<forall>s\<in>set rest. s < next_slot v \<and>
        (pending_removal (slot_heap v s) \<or> s \<in> set (slots (impls v a)))"
    and r: "run_body (\<lambda>g w. untraced (emit_n n P g w)) (DisconnectAll g # post) v = Inr (oc, v')"
  shows "\<forall>s\<in>set rest. pending_removal (slot_heap v' s)"
proof -
  let ?v1 = "disconnect_all g v"
  have r1: "run_body (\<lambda>g w. untraced (emit_n n P g w)) post ?v1 = Inr (oc, v')"
    using r by simp
  have "well_formed (exec (DisconnectAll g) v)" using wf by (rule well_formed_exec)
  then have wf1: "well_formed ?v1" by simp
  have ev: "evolves ?v1 v'" using run_fuel_steps [OF wf1 r1] by (rule evolves_steps)
  have "\<forall>s\<in>set rest. s < next_slot ?v1 \<and> pending_removal (slot_heap ?v1 s)"
    using rest disconnect_all_effect [OF g] by auto
  then show ?thesis using evolves_pending [OF ev] by blast
qed

lemma three_slot_begin: "emit_begin 0 three_slot_world = Some ([2, 1, 0], snapshot_world)"
  by (simp add: snapshot_world_def three_slot_world_def op_defs empty_world_def emit_begin_def
        cleanup_and_resort_def cleanup_slots_locked_def stable_sort_def higher_priority_def
        Let_def)

lemma snapshot_world_simps:
  "well_formed snapshot_world"
  "sigs snapshot_world 0 = Some 0"
  "slots (impls snapshot_world 0) = [2, 1, 0]"
  "next_slot snapshot_world = 3"
  "func (slot_heap snapshot_world 2) = Plain 3"
proof -
  show "well_formed snapshot_world"
    using well_formed_step [OF step_begin [OF three_slot_begin]] three_slot_world_inv(1) .
  have "step three_slot_world snapshot_world" using three_slot_begin by (rule step_begin)
  show "sigs snapshot_world 0 = Some 0" "next_slot snapshot_world = 3"
    "func (slot_heap snapshot_world 2) = Plain 3"
    by (simp_all add: emit_begin_fields [OF three_slot_begin])
       (simp_all add: three_slot_world_def op_defs empty_world_def Let_def)
  show "slots (impls snapshot_world 0) = [2, 1, 0]"
    by (simp add: snapshot_world_def three_slot_world_def op_defs empty_world_def emit_begin_def
        cleanup_and_resort_def cleanup_slots_locked_def stable_sort_def higher_priority_def
        Let_def)
qed

lemma snapshot_guard: "fst (slot_guard 2 snapshot_world) = Run"
  by (simp add: slot_guard_def has_tracked_object_def is_callable_def try_acquire_execution_def
        Let_def emit_begin_fields [OF three_slot_begin])
     (simp add: three_slot_world_def op_defs empty_world_def Let_def)

section \<open>Skipped single-shot slots\<close>

lemma snapshot_ahead_begin:
  "emit_begin g w = Some (ls, w1) \<Longrightarrow> \<exists>a. sigs w1 g = Some a \<and> ls = slots (impls w1 a)"
  by (auto simp: emit_begin_def Let_def cleanup_and_resort_simps split: option.splits if_splits)

lemma snapshot_ahead_evolves:
  assumes "evolves w w'" and "a < next_impl w"
    and "\<forall>s\<in>set rest. s < next_slot w \<and>
           (pending_removal (slot_heap w s) \<or> s \<in> set (slots (impls w a)))"
  shows "\<forall>s\<in>set rest. s < next_slot w' \<and>
           (pending_removal (slot_heap w' s) \<or> s \<in> set (slots (impls w' a)))"
proof
  fix s assume "s \<in> set rest"
  then have s: "s < next_slot w"
    and d: "pending_removal (slot_heap w s) \<or> s \<in> set (slots (impls w a))"
    using assms(3) by auto
  have "pending_removal (slot_heap w' s) \<or> s \<in> set (slots (impls w' a))"
    using d
  proof
    assume "pending_removal (slot_heap w s)"
    then show ?thesis using evolves_pending [OF assms(1) s] by simp
  next
    assume "s \<in> set (slots (impls w a))"
    then show ?thesis using assms(1,2) s by (auto simp: evolves_def)
  qed
  then show "s < next_slot w' \<and>
           (pending_removal (slot_heap w' s) \<or> s \<in> set (slots (impls w' a)))"
    using s evolves_next_slot [OF assms(1)] by simp
qed

lemma guard_not_callable:
  "\<not> is_callable w (slot_heap w sp) \<Longrightarrow>
   fst (slot_guard sp w) = Skip \<and>
   executed (slot_heap (snd (snd (slot_guard sp w))) sp) = executed (slot_heap w sp) \<and>
   history (snd (snd (slot_guard sp w))) = history w"
  by (auto simp: slot_guard_def is_callable_def store_pending_def Let_def split: if_splits)

lemma guard_callable_fresh:
  "is_callable w (slot_heap w sp) \<Longrightarrow> single_shot (slot_heap w sp) \<Longrightarrow>
   \<not> executed (slot_heap w sp) \<Longrightarrow>
   fst (slot_guard sp w) = Run \<and> executed (slot_heap (snd (snd (slot_guard sp w))) sp) \<and>
   history (snd (snd (slot_guard sp w))) = history w @ [Invoked sp]"
  by (auto simp: slot_guard_def is_callable_def try_acquire_execution_def store_pending_def
        Let_def split: if_splits)

lemma block_executed: "executed (slot_heap (block c b w) s) = executed (slot_heap w s)"
  by (simp add: block_def split: option.splits)

lemma unblock_callable:
  "lock_slot w c = Some s \<Longrightarrow> \<not> pending_removal (slot_heap w s) \<Longrightarrow>
   \<not> (has_tracked_object (slot_heap w s) \<and> tracked_expired w (slot_heap w s)) \<Longrightarrow>
   is_callable (unblock c w) (slot_heap (unblock c w) s)"
  by (auto simp: unblock_def block_def is_callable_def has_tracked_object_def
        tracked_expired_def split: option.splits)

section \<open>Moved signals\<close>

lemma null_signal:
  assumes "sigs v g = None"
  shows "\<not> valid v g" "empty_signal v g" "slot_count v g = 0"
    "operator_call P runb g v = Inr (Normal, [], v)" "disconnect_all g v = v"
  using assms
  by (simp_all add: valid_def empty_signal_def slot_count_def operator_call_def emit_begin_def
        disconnect_all_def)

lemma emit_begin_snapshot_cong:
  assumes "sigs v' g' = sigs v g" "impls v' = impls v" "slot_heap v' = slot_heap v"
  shows "map_option fst (emit_begin g' v') = map_option fst (emit_begin g v)"
  using assms
  by (auto simp: emit_begin_def cleanup_and_resort_slots higher_priority_key Let_def
        split: option.splits)

lemma move_ctor_effect:
  assumes "g' \<noteq> g"
  shows "sigs (sig_move_ctor g' g w) g = None" "sigs (sig_move_ctor g' g w) g' = sigs w g"
    "impls (sig_move_ctor g' g w) = impls w" "slot_heap (sig_move_ctor g' g w) = slot_heap w"
  using assms by (simp_all add: sig_move_ctor_def)

lemma move_assign_effect:
  assumes "g' \<noteq> g"
  shows "sigs (sig_move_assign g' g w) g = None" "sigs (sig_move_assign g' g w) g' = sigs w g"
  using assms
  by (auto simp: sig_move_assign_def disconnect_all_def release_impl_def mark_all_closed Let_def
        split: option.splits)

lemma move_assign_keeps:
  assumes "g' \<noteq> g" and "sigs w g = Some a"
    and "\<forall>b. sigs w g' = Some b \<longrightarrow>
           b \<noteq> a \<and> set (slots (impls w b)) \<inter> set (slots (impls w a)) = {}"
  shows "impls (sig_move_assign g' g w) a = impls w a"
    "\<forall>s\<in>set (slots (impls w a)). slot_heap (sig_move_assign g' g w) s = slot_heap w s"
  using assms
  by (auto simp: sig_move_assign_def disconnect_all_def release_impl_def mark_all_closed Let_def
        split: option.splits)

lemma slot_count_cong:
  assumes "sigs v' g' = Some a" "sigs v g = Some a" "impls v' a = impls v a"
    "\<forall>s\<in>set (slots (impls v a)). slot_heap v' s = slot_heap v s"
  shows "slot_count v' g' = slot_count v g"
proof -
  have "filter (\<lambda>s. \<not> pending_removal (slot_heap v' s)) (slots (impls v a)) =
        filter (\<lambda>s. \<not> pending_removal (slot_heap v s)) (slots (impls v a))"
    using assms(4) by (intro filter_cong) auto
  then show ?thesis using assms(1-3) by (simp add: slot_count_def)
qed

text \<open>
  Claim C8. Let \<open>g'\<close> and \<open>g\<close> be different signal objects. After the move construction
  of \<open>g'\<close> from \<open>g\<close>, and after the move assignment of \<open>g\<close> to \<open>g'\<close>, the source \<open>g\<close> is
  not valid and is empty, an emission on it returns at once and \<open>disconnect_all\<close> on it
  changes nothing, and the destination holds the shared state the source held. Move
  construction leaves all shared states and slot records as they were, so the emission
  on the destination takes the snapshot that the emission on the source would have
  taken. Move assignment first disconnects the destination's old slots; when that old
  state is another one than the source's and shares no slot with it (as always for
  states built by the constructor), the source's state and its slot records arrive
  unchanged and \<open>slot_count\<close> of the destination is what it was for the source.
\<close>

theorem C8_move:
  assumes "g' \<noteq> g"
  shows "\<not> valid (sig_move_ctor g' g w) g \<and> empty_signal (sig_move_ctor g' g w) g \<and>
     operator_call P runb g (sig_move_ctor g' g w) = Inr (Normal, [], sig_move_ctor g' g w) \<and>
     disconnect_all g (sig_move_ctor g' g w) = sig_move_ctor g' g w \<and>
     sigs (sig_move_ctor g' g w) g' = sigs w g \<and>
     impls (sig_move_ctor g' g w) = impls w \<and> slot_heap (sig_move_ctor g' g w) = slot_heap w \<and>
     slot_count (sig_move_ctor g' g w) g' = slot_count w g \<and>
     map_option fst (emit_begin g' (sig_move_ctor g' g w)) = map_option fst (emit_begin g w) \<and>
     \<not> valid (sig_move_assign g' g w) g \<and> empty_signal (sig_move_assign g' g w) g \<and>
     operator_call P runb g (sig_move_assign g' g w) = Inr (Normal, [], sig_move_assign g' g w) \<and>
     disconnect_all g (sig_move_assign g' g w) = sig_move_assign g' g w \<and>
     sigs (sig_move_assign g' g w) g' = sigs w g \<and>
     (\<forall>a. sigs w g = Some a \<and>
          (\<forall>b. sigs w g' = Some b \<longrightarrow>
             b \<noteq> a \<and> set (slots (impls w b)) \<inter> set (slots (impls w a)) = {}) \<longrightarrow>
        impls (sig_move_assign g' g w) a = impls w a \<and>
        (\<forall>s\<in>set (slots (impls w a)). slot_heap (sig_move_assign g' g w) s = slot_heap w s) \<and>
        slot_count (sig_move_assign g' g w) g' = slot_count w g)"
proof -
  let ?c = "sig_move_ctor g' g w" and ?m = "sig_move_assign g' g w"
  note c = move_ctor_effect [OF assms, of w]
  note m = move_assign_effect [OF assms, of w]
  have 1: "slot_count ?c g' = slot_count w g"
    by (simp add: slot_count_def c split: option.splits)
  have 2: "map_option fst (emit_begin g' ?c) = map_option fst (emit_begin g w)"
    using c by (intro emit_begin_snapshot_cong) simp_all
  have 3: "impls ?m a = impls w a \<and>
        (\<forall>s\<in>set (slots (impls w a)). slot_heap ?m s = slot_heap w s) \<and>
        slot_count ?m g' = slot_count w g"
    if a: "sigs w g = Some a" and d: "\<forall>b. sigs w g' = Some b \<longrightarrow>
             b \<noteq> a \<and> set (slots (impls w b)) \<inter> set (slots (impls w a)) = {}" for a
  proof -
    note k = move_assign_keeps [OF assms a d]
    have "slot_count ?m g' = slot_count w g"
      using m(2) a k by (intro slot_count_cong [where a = a]) simp_all
    then show ?thesis using k by simp
  qed
  show ?thesis
    using null_signal [OF c(1)] null_signal [OF m(1)] c m 1 2 3
    by simp
qed

lemma two_signal_world_simps:
  "sigs two_signal_world 0 = Some 0" "sigs two_signal_world (Suc 0) = Some 1"
  "slots (impls two_signal_world 0) = [0]" "slots (impls two_signal_world (Suc 0)) = [1]"
  "slot_count two_signal_world 0 = 1"
  by (simp_all add: two_signal_world_def op_defs empty_world_def slot_count_def Let_def)

lemma two_signal_moved_emit:
  "\<exists>w'. emit_n (Suc 0) quiet_program 1 (sig_move_assign 1 0 two_signal_world)
     = Inr (Normal, [0], w')"
  "\<exists>w'. emit_n (Suc 0) quiet_program 2 (sig_move_ctor 2 0 two_signal_world)
     = Inr (Normal, [0], w')"
  by (simp_all add: two_signal_world_def quiet_program_def op_defs empty_world_def run_defs
        Let_def)

theorem C8_move_witness:
  "\<not> valid (sig_move_assign 1 0 two_signal_world) 0 \<and>
   empty_signal (sig_move_assign 1 0 two_signal_world) 0 \<and>
   slot_count (sig_move_assign 1 0 two_signal_world) 1 = 1 \<and>
   slot_count (sig_move_ctor 2 0 two_signal_world) 2 = 1 \<and>
   (\<exists>w'. emit_n (Suc 0) quiet_program 1 (sig_move_assign 1 0 two_signal_world)
      = Inr (Normal, [0], w')) \<and>
   (\<exists>w'. emit_n (Suc 0) quiet_program 2 (sig_move_ctor 2 0 two_signal_world)
      = Inr (Normal, [0], w'))"
proof -
  have d: "(1::nat) \<noteq> 0" "(2::nat) \<noteq> 0" by simp_all
  from C8_move [OF d(1), of two_signal_world] C8_move [OF d(2), of two_signal_world]
    two_signal_world_simps two_signal_moved_emit
  show ?thesis by simp
qed

section \<open>Reachable worlds\<close>

lemma separate_exec: "well_formed w \<Longrightarrow> separate w \<Longrightarrow> separate (exec a w)"
  apply (cases a)
  apply (auto simp: separate_def well_formed_def op_defs Let_def
           split: option.splits prod.splits if_splits)
  apply (blast intro: less_SucI)
  done

lemma separate_step: "step w w' \<Longrightarrow> well_formed w \<Longrightarrow> separate w \<Longrightarrow> separate w'"
proof (induction rule: step.induct)
  case (step_exec w a) then show ?case by (simp add: separate_exec)
next
  case (step_begin g w ls w1)
  from step_begin(1) show ?case
  proof (cases rule: emit_begin_cases)
    case (1 a w0)
    have "\<And>b. set (slots (impls w0 b)) \<subseteq> set (slots (impls w b))"
      using 1(5) by (auto simp: cleanup_and_resort_simps set_stable_sort)
    moreover have "impls w1 = impls w0" "sigs w1 = sigs w" "next_impl w1 = next_impl w"
      using 1(3) emit_begin_fields [OF step_begin(1)] by simp_all
    ultimately show ?thesis using step_begin(3)
      unfolding separate_def by (simp add: disjoint_iff subset_iff) metis
  qed
next
  case (step_guard sp w)
  then show ?case by (simp add: separate_def slot_guard_fields)
next
  case (step_end g ls nc w w1)
  then show ?case by (simp add: separate_def emit_end_fields)
qed (auto simp: separate_def)

lemma separate_steps:
  "step\<^sup>*\<^sup>* w w' \<Longrightarrow> well_formed w \<Longrightarrow> separate w \<Longrightarrow> separate w'"
  by (induction rule: rtranclp_induct) (auto dest: separate_step well_formed_steps)

lemma separate_empty: "separate empty_world"
  by (simp add: separate_def empty_world_def empty_impl_def)

text \<open>
  Every world reached from the empty one by a run satisfies the invariants that the
  theorems above take as hypotheses.
\<close>

lemma reachable_invariants:
  assumes "run n P acts empty_world = Inr (oc, w)"
  shows "well_formed w \<and> order_inv w \<and> once_inv w \<and> disc_inv w \<and> separate w"
proof -
  have s: "step\<^sup>*\<^sup>* empty_world w" using well_formed_empty assms by (rule run_steps)
  show ?thesis
    using well_formed_steps [OF s well_formed_empty]
      order_inv_steps [OF s well_formed_empty order_inv_empty]
      once_inv_steps [OF s once_inv_empty]
      disc_inv_steps [OF s well_formed_empty disc_inv_empty]
      separate_steps [OF s well_formed_empty separate_empty]
    by simp
qed

lemma separate_move_assign:
  assumes "separate w" and "g' \<noteq> g" and "sigs w g = Some a"
  shows "\<forall>b. sigs w g' = Some b \<longrightarrow>
           b \<noteq> a \<and> set (slots (impls w b)) \<inter> set (slots (impls w a)) = {}"
  using assms unfolding separate_def by metis

section \<open>Member connects with a null or an empty owner\<close>

lemma alias_world_simps:
  "sigs alias_world 0 = Some 0" "slots (impls alias_world 0) = []"
  "get_ptr (owners alias_world 0) = Some 5" "ctrl (owners alias_world 0) = None"
  "next_slot alias_world = 0" "well_formed alias_world"
  by (simp_all add: alias_world_def op_defs empty_world_def well_formed_def Let_def)

lemma connect_impl_registers:
  assumes "well_formed w" "sigs w g = Some a"
  shows "slot_count (snd (connect_impl g f p ss t w)) g = Suc (slot_count w g)"
    "is_connected (snd (connect_impl g f p ss t w)) (fst (connect_impl g f p ss t w))"
    "tracked (slot_heap (snd (connect_impl g f p ss t w)) (next_slot w)) = t"
    "func (slot_heap (snd (connect_impl g f p ss t w)) (next_slot w)) = f"
    "slots (impls (snd (connect_impl g f p ss t w)) a) = slots (impls w a) @ [next_slot w]"
proof -
  have "\<forall>s\<in>set (slots (impls w a)). s \<noteq> next_slot w"
    using assms(1) by (auto simp: well_formed_def)
  then have "filter (\<lambda>s. s \<noteq> next_slot w \<longrightarrow> \<not> pending_removal (slot_heap w s)) (slots (impls w a))
      = filter (\<lambda>s. \<not> pending_removal (slot_heap w s)) (slots (impls w a))"
    by (intro filter_cong) auto
  then show "slot_count (snd (connect_impl g f p ss t w)) g = Suc (slot_count w g)"
    using assms(2) by (simp add: connect_impl_def slot_count_def Let_def)
  show "is_connected (snd (connect_impl g f p ss t w)) (fst (connect_impl g f p ss t w))"
    "tracked (slot_heap (snd (connect_impl g f p ss t w)) (next_slot w)) = t"
    "func (slot_heap (snd (connect_impl g f p ss t w)) (next_slot w)) = f"
    "slots (impls (snd (connect_impl g f p ss t w)) a) = slots (impls w a) @ [next_slot w]"
    using assms(2) by (simp_all add: connect_impl_def is_connected_def lock_slot_def Let_def)
qed

text \<open>
  Claim C7 fails as stated for an empty shared pointer whose stored pointer is not null:
  the overload tests the stored pointer only, so on a signal without slots it registers
  a slot and returns a connected handle.
\<close>

theorem C7_counterexample:
  "ctrl (owners alias_world 0) = None \<and>
   get_ptr (owners alias_world 0) = Some 5 \<and>
   slot_count alias_world 0 = 0 \<and>
   slot_count (snd (connect_shared 0 (owners alias_world 0) 7 0 alias_world)) 0 = 1 \<and>
   is_connected (snd (connect_shared 0 (owners alias_world 0) 7 0 alias_world))
     (fst (connect_shared 0 (owners alias_world 0) 7 0 alias_world))"
  by (simp add: alias_world_simps connect_shared_def connect_impl_def slot_count_def
        is_connected_def lock_slot_def Let_def)

text \<open>
  Claim C7, amended. A member-function connect called with a shared pointer whose stored
  pointer is null, or with a null raw pointer, returns the default-constructed handle and
  leaves the world as it was, so no slot is registered and \<open>slot_count\<close> of every signal
  is unchanged; on that handle \<open>is_connected\<close> and \<open>is_blocked\<close> are false and
  \<open>disconnect\<close>, \<open>block\<close>, \<open>unblock\<close> and \<open>reset\<close> change nothing. Nothing else is
  rejected: with a stored pointer that is not null (whether or not the shared pointer is
  empty) and with a raw pointer that is not null, a signal holding its shared state in a
  well-formed world gains one slot, the returned handle is connected, and the tracked
  reference of the new slot shares the control block of the shared pointer (none for an
  empty one and for a raw pointer).
\<close>

theorem C7_null_owner_inert:
  "(get_ptr obj = None \<longrightarrow>
      connect_shared g obj memfn p w = (empty_connection, w) \<and>
      slot_count (snd (connect_shared g obj memfn p w)) g' = slot_count w g') \<and>
   connect_raw g None memfn p w = (empty_connection, w) \<and>
   slot_count (snd (connect_raw g None memfn p w)) g' = slot_count w g' \<and>
   (well_formed w \<and> sigs w g = Some a \<and> get_ptr obj \<noteq> None \<longrightarrow>
      slot_count (snd (connect_shared g obj memfn p w)) g = Suc (slot_count w g) \<and>
      is_connected (snd (connect_shared g obj memfn p w)) (fst (connect_shared g obj memfn p w)) \<and>
      tracked (slot_heap (snd (connect_shared g obj memfn p w)) (next_slot w)) = ctrl obj \<and>
      func (slot_heap (snd (connect_shared g obj memfn p w)) (next_slot w))
        = SharedMember (ctrl obj) memfn) \<and>
   (well_formed w \<and> sigs w g = Some a \<longrightarrow>
      slot_count (snd (connect_raw g (Some ob) memfn p w)) g = Suc (slot_count w g) \<and>
      is_connected (snd (connect_raw g (Some ob) memfn p w))
        (fst (connect_raw g (Some ob) memfn p w)) \<and>
      tracked (slot_heap (snd (connect_raw g (Some ob) memfn p w)) (next_slot w)) = None) \<and>
   \<not> is_connected w' empty_connection \<and>
   \<not> is_blocked w' empty_connection \<and>
   disconnect empty_connection w' = w' \<and>
   block empty_connection b w' = w' \<and>
   unblock empty_connection w' = w' \<and>
   reset empty_connection = empty_connection"
proof -
  have 1: "get_ptr obj = None \<longrightarrow>
      connect_shared g obj memfn p w = (empty_connection, w) \<and>
      slot_count (snd (connect_shared g obj memfn p w)) g' = slot_count w g'"
    by (simp add: connect_shared_def)
  have 2: "connect_raw g None memfn p w = (empty_connection, w)"
    "slot_count (snd (connect_raw g None memfn p w)) g' = slot_count w g'"
    by (simp_all add: connect_raw_def)
  have 3: "well_formed w \<and> sigs w g = Some a \<and> get_ptr obj \<noteq> None \<longrightarrow>
      slot_count (snd (connect_shared g obj memfn p w)) g = Suc (slot_count w g) \<and>
      is_connected (snd (connect_shared g obj memfn p w)) (fst (connect_shared g obj memfn p w)) \<and>
      tracked (slot_heap (snd (connect_shared g obj memfn p w)) (next_slot w)) = ctrl obj \<and>
      func (slot_heap (snd (connect_shared g obj memfn p w)) (next_slot w))
        = SharedMember (ctrl obj) memfn"
    using connect_impl_registers [of w g a "SharedMember (ctrl obj) memfn" p False "ctrl obj"]
    by (simp add: connect_shared_def)
  have 4: "well_formed w \<and> sigs w g = Some a \<longrightarrow>
      slot_count (snd (connect_raw g (Some ob) memfn p w)) g = Suc (slot_count w g) \<and>
      is_connected (snd (connect_raw g (Some ob) memfn p w))
        (fst (connect_raw g (Some ob) memfn p w)) \<and>
      tracked (slot_heap (snd (connect_raw g (Some ob) memfn p w)) (next_slot w)) = None"
    using connect_impl_registers [of w g a "RawMember ob memfn" p False None]
    by (simp add: connect_raw_def)
  have 5: "\<not> is_connected w' empty_connection" "\<not> is_blocked w' empty_connection"
    "disconnect empty_connection w' = w'" "block empty_connection b w' = w'"
    "unblock empty_connection w' = w'" "reset empty_connection = empty_connection"
    by (simp_all add: is_connected_def is_blocked_def disconnect_def block_def unblock_def
          reset_def lock_slot_def lock_impl_def empty_connection_def)
  show ?thesis using 1 2 3 4 5 by blast
qed

theorem C7_null_owner_inert_witness:
  "get_ptr null_shared = None \<and>
   connect_shared 0 null_shared 7 0 alias_world = (empty_connection, alias_world) \<and>
   slot_count (snd (connect_shared 0 null_shared 7 0 alias_world)) 0 = slot_count alias_world 0 \<and>
   connect_raw 0 None 7 0 alias_world = (empty_connection, alias_world) \<and>
   well_formed alias_world \<and> sigs alias_world 0 = Some 0 \<and>
   get_ptr (owners alias_world 0) \<noteq> None \<and>
   slot_count (snd (connect_shared 0 (owners alias_world 0) 7 0 alias_world)) 0
     = Suc (slot_count alias_world 0) \<and>
   tracked (slot_heap (snd (connect_shared 0 (owners alias_world 0) 7 0 alias_world)) 0) = None"
  using C7_null_owner_inert [where obj = null_shared and g = 0 and memfn = 7 and p = 0
          and w = alias_world and g' = 0 and a = 0]
        C7_null_owner_inert [where obj = "owners alias_world 0" and g = 0 and memfn = 7 and p = 0
          and w = alias_world and g' = 0 and a = 0]
  by (simp add: alias_world_simps null_shared_def)

section \<open>The loop over a snapshot, piecewise\<close>

lemma emit_loop_append:
  assumes "emit_loop P runb (xs @ ys) nc w = Inr (oc, nc', called, w')"
  shows "\<exists>nc1 c1 w1 c2. emit_loop P runb xs nc w = Inr (Normal, nc1, c1, w1) \<and>
           emit_loop P runb ys nc1 w1 = Inr (oc, nc', c2, w') \<and> called = c1 @ c2"
  using assms
proof (induction xs arbitrary: nc w called)
  case Nil then show ?case by simp
next
  case (Cons sp xs)
  let ?gw = "snd (snd (slot_guard sp w))"
  let ?nc = "nc \<or> fst (snd (slot_guard sp w))"
  show ?case
  proof (cases "fst (slot_guard sp w)")
    case Skip
    then have e: "emit_loop P runb (sp # zs) nc w = emit_loop P runb zs ?nc ?gw" for zs
      by (rule emit_loop_Cons_skip)
    from Cons.prems have "emit_loop P runb (xs @ ys) ?nc ?gw = Inr (oc, nc', called, w')"
      using e [of "xs @ ys"] by simp
    from Cons.IH [OF this] show ?thesis using e [of xs] by simp
  next
    case Run
    from Cons.prems have p: "emit_loop P runb (sp # (xs @ ys)) nc w = Inr (oc, nc', called, w')"
      by simp
    from emit_loop_Cons_run [OF Run p] obtain oc2 w2 called2 where
      c: "call_func P runb (func (slot_heap ?gw sp)) ?gw = Inr (oc2, w2)"
      and l: "emit_loop P runb (xs @ ys) ?nc w2 = Inr (oc, nc', called2, w')"
      and cl: "called = sp # called2" by blast
    from Cons.IH [OF l] obtain nc1 c1 w1 c2 where
      a: "emit_loop P runb xs ?nc w2 = Inr (Normal, nc1, c1, w1)"
      and b: "emit_loop P runb ys nc1 w1 = Inr (oc, nc', c2, w')" and d: "called2 = c1 @ c2"
      by blast
    obtain dd flag gw where g: "slot_guard sp w = (dd, flag, gw)"
      by (cases "slot_guard sp w") auto
    have "emit_loop P runb (sp # xs) nc w = Inr (Normal, nc1, sp # c1, w1)"
      using g Run c a by (simp add: catch_all_def)
    then show ?thesis using b cl d by simp
  qed
qed




section \<open>The dirty flag\<close>












section \<open>Disconnecting all slots from inside a callback, at any point of its body\<close>

lemma run_body_append:
  "run_body emitf xs w = Inr (Normal, v) \<Longrightarrow> run_body emitf (xs @ ys) w = run_body emitf ys v"
proof (induction xs arbitrary: w)
  case Nil then show ?case by simp
next
  case (Cons x xs)
  from Cons.prems obtain w1 where
    a: "run_action emitf x w = Inr (Normal, w1)" and r: "run_body emitf xs w1 = Inr (Normal, v)"
    by (auto split: sum.splits outcome.splits)
  show ?case using a Cons.IH [OF r] by simp
qed

lemma call_func_call_world:
  assumes "f = Plain k \<or> f = RawMember ob k \<or> f = SharedMember (Some ob) k \<and> obj_refs w ob \<noteq> 0"
    and "call_func P runb f w = Inr (oc, w')"
  shows "\<exists>v'. runb (P k (call_world f w)) (call_world f w) = Inr (oc, v') \<and>
           slot_heap w' = slot_heap v' \<and>
           (step w (call_world f w) \<or> call_world f w = w)"
proof (cases "f = SharedMember (Some ob) k \<and> obj_refs w ob \<noteq> 0")
  case False
  then show ?thesis using assms by (auto simp: call_func_def call_world_def)
next
  case True
  have "step w (call_world f w)" using True step_hold [of w ob] by (simp add: call_world_def)
  then show ?thesis using assms(2) True
    by (auto simp: call_func_def call_world_def Let_def split: sum.splits)
qed

lemma loop_after_disconnect_all:
  assumes wf: "well_formed w" and a: "a < next_impl w"
    and rest: "\<forall>s\<in>set rest. s < next_slot w \<and>
           (pending_removal (slot_heap w s) \<or> s \<in> set (slots (impls w a)))"
    and sp: "sp < next_slot w" and run: "fst (slot_guard sp w) = Run"
    and callee: "func (slot_heap w sp) = Plain k \<or> func (slot_heap w sp) = RawMember ob k \<or>
         func (slot_heap w sp) = SharedMember (Some ob) k \<and> obj_refs w ob \<noteq> 0"
    and body: "P k (call_world (func (slot_heap w sp)) (snd (snd (slot_guard sp w))))
         = before @ DisconnectAll g # after"
    and pre: "run_body (\<lambda>g w. untraced (emit_n n P g w)) before
           (call_world (func (slot_heap w sp)) (snd (snd (slot_guard sp w)))) = Inr (Normal, v)"
    and g: "sigs v g = Some a"
    and loop: "emit_loop P (run_body (\<lambda>g w. untraced (emit_n n P g w))) (sp # rest) nc w
           = Inr (oc, nc', called, w')"
  shows "called = [sp] \<and> (\<forall>s\<in>set rest. pending_removal (slot_heap w' s))"
proof -
  let ?runb = "run_body (\<lambda>g w. untraced (emit_n n P g w))"
  let ?gw = "snd (snd (slot_guard sp w))"
  let ?f = "func (slot_heap w sp)"
  let ?cw = "call_world ?f ?gw"
  have st: "step w ?gw" using sp by (rule step_guard)
  have wfg: "well_formed ?gw" using st wf by (rule well_formed_step)
  from emit_loop_Cons_run [OF run loop] obtain oc2 w2 called2 where
    c: "call_func P ?runb (func (slot_heap ?gw sp)) ?gw = Inr (oc2, w2)"
    and l: "emit_loop P ?runb rest (nc \<or> fst (snd (slot_guard sp w))) w2
              = Inr (oc, nc', called2, w')"
    and cl: "called = sp # called2"
    by blast
  have c': "call_func P ?runb ?f ?gw = Inr (oc2, w2)" using c by (simp add: slot_guard_slot)
  have callee': "?f = Plain k \<or> ?f = RawMember ob k \<or>
      ?f = SharedMember (Some ob) k \<and> obj_refs ?gw ob \<noteq> 0"
    using callee by (simp add: slot_guard_fields)
  from call_func_call_world [OF callee' c'] obtain v' where
    r: "?runb (P k ?cw) ?cw = Inr (oc2, v')" and sh: "slot_heap w2 = slot_heap v'"
    and cs: "step ?gw ?cw \<or> ?cw = ?gw" by blast
  have s2: "step\<^sup>*\<^sup>* ?gw ?cw" using cs by auto
  have wfc: "well_formed ?cw" using s2 wfg by (rule well_formed_steps)
  have s3: "step\<^sup>*\<^sup>* ?cw v" using wfc pre by (rule run_fuel_steps)
  have wfv: "well_formed v" using s3 wfc by (rule well_formed_steps)
  have "step\<^sup>*\<^sup>* w v" using st s2 s3 by (meson converse_rtranclp_into_rtranclp rtranclp_trans)
  then have ev: "evolves w v" by (rule evolves_steps)
  have restv: "\<forall>s\<in>set rest. s < next_slot v \<and>
           (pending_removal (slot_heap v s) \<or> s \<in> set (slots (impls v a)))"
    using ev a rest by (rule snapshot_ahead_evolves)
  have "?runb (before @ DisconnectAll g # after) ?cw = ?runb (DisconnectAll g # after) v"
    using pre by (rule run_body_append)
  then have "?runb (DisconnectAll g # after) v = Inr (oc2, v')"
    using r body by (simp del: run_body.simps)
  then have "\<forall>s\<in>set rest. pending_removal (slot_heap v' s)"
    by (rule body_after_disconnect_all [OF wfv g restv])
  then have p2: "\<forall>s\<in>set rest. pending_removal (slot_heap w2 s)" using sh by simp
  from emit_loop_all_pending [OF p2 l] p2 cl show ?thesis by simp
qed

text \<open>
  Claim C9 fails as stated when the callback has moved the emitting signal object away
  before it calls \<open>disconnect_all\<close> on it: the moved-from object holds no shared
  state, the call does nothing, and the emission goes on to call the two remaining
  records of its snapshot.
\<close>

theorem C9_counterexample:
  "func (slot_heap three_slot_world 2) = Plain 3 \<and>
   moved_from_program 3 three_slot_world = [SigMoveCtor 1 0, DisconnectAll 0] \<and>
   calls_of (emit_n (Suc 0) moved_from_program 0 three_slot_world) = Some [2, 1, 0]"
  by (simp add: calls_of_def three_slot_world_def moved_from_program_def op_defs
        empty_world_def run_defs Let_def)

text \<open>
  Claim C9, amended. Let an emission on the signal object \<open>g0\<close>, which holds the shared
  state \<open>a\<close>, take the snapshot \<open>pre @ sp # rest\<close>, and let its loop reach the record
  \<open>sp\<close> in the world \<open>w\<close> and go on to call it (for the wrapper of a shared owner:
  while the owner is alive, so that the wrapper does call the member function). If the
  body of the callable comes to a call of \<open>disconnect_all\<close> on a signal object \<open>g\<close>,
  after any actions that returned normally, and at that moment \<open>g\<close> holds the shared
  state \<open>a\<close> of the snapshot (\<open>g\<close> is the emitting object unless that has been moved
  from, and the destination of the move otherwise), then whatever the body does
  afterwards, the loop calls no record after \<open>sp\<close>, all the remaining records end
  flagged, and the emission, if it returns, has called the records called before \<open>sp\<close>
  and \<open>sp\<close>.
\<close>

theorem C9_disconnect_all_in_callback:
  assumes "well_formed w0" and "sigs w0 g0 = Some a" and "a < next_impl w0"
    and "emit_begin g0 w0 = Some (pre @ sp # rest, w1)"
    and "emit_loop P (run_body (\<lambda>g w. untraced (emit_n n P g w))) pre False w1
           = Inr (oc1, nc1, called1, w)"
    and "fst (slot_guard sp w) = Run"
    and "func (slot_heap w sp) = Plain k \<or> func (slot_heap w sp) = RawMember ob k \<or>
         func (slot_heap w sp) = SharedMember (Some ob) k \<and> obj_refs w ob \<noteq> 0"
    and "P k (call_world (func (slot_heap w sp)) (snd (snd (slot_guard sp w))))
           = before @ DisconnectAll g # after"
    and "run_body (\<lambda>g w. untraced (emit_n n P g w)) before
           (call_world (func (slot_heap w sp)) (snd (snd (slot_guard sp w)))) = Inr (Normal, v)"
    and "sigs v g = Some a"
    and "emit_loop P (run_body (\<lambda>g w. untraced (emit_n n P g w))) (pre @ sp # rest) False w1
           = Inr (oc, nc', called, w')"
  shows "called = called1 @ [sp] \<and> (\<forall>s\<in>set rest. pending_removal (slot_heap w' s)) \<and>
         (\<forall>r. emit_n (Suc n) P g0 w0 = Inr r \<longrightarrow> fst (snd r) = called1 @ [sp])"
proof -
  let ?runb = "run_body (\<lambda>g w. untraced (emit_n n P g w))"
  let ?ls = "pre @ sp # rest"
  have R: "\<And>acts w oc w'. well_formed w \<Longrightarrow> ?runb acts w = Inr (oc, w') \<Longrightarrow> step\<^sup>*\<^sup>* w w'"
    by (rule run_fuel_steps)
  have wf1: "well_formed w1" using step_begin [OF assms(4)] assms(1) by (rule well_formed_step)
  from snapshot_ahead_begin [OF assms(4)] obtain a' where
    "sigs w1 g0 = Some a'" and ls: "?ls = slots (impls w1 a')" by blast
  then have a': "a' = a" using assms(2) emit_begin_fields(5) [OF assms(4)] by simp
  have lt: "\<forall>s\<in>set ?ls. s < next_slot w1" using wf1 ls by (auto simp: well_formed_def)
  have a1: "a < next_impl w1" using assms(3) emit_begin_fields(3) [OF assms(4)] by simp
  have ahead1: "\<forall>s\<in>set (sp # rest). s < next_slot w1 \<and>
      (pending_removal (slot_heap w1 s) \<or> s \<in> set (slots (impls w1 a)))"
  proof
    fix s assume "s \<in> set (sp # rest)"
    then have "s \<in> set ?ls" by auto
    then show "s < next_slot w1 \<and>
      (pending_removal (slot_heap w1 s) \<or> s \<in> set (slots (impls w1 a)))"
      using lt ls a' by metis
  qed
  have ltp: "\<forall>s\<in>set pre. s < next_slot w1" using lt by simp
  have st: "step\<^sup>*\<^sup>* w1 w" using R wf1 ltp assms(5) by (rule emit_loop_steps)
  have wf: "well_formed w" using st wf1 by (rule well_formed_steps)
  have ev: "evolves w1 w" using st by (rule evolves_steps)
  have aw: "a < next_impl w" using a1 ev by (simp add: evolves_def)
  have ahead: "\<forall>s\<in>set (sp # rest). s < next_slot w \<and>
      (pending_removal (slot_heap w s) \<or> s \<in> set (slots (impls w a)))"
    using ev a1 ahead1 by (rule snapshot_ahead_evolves)
  then have sp: "sp < next_slot w" and rest: "\<forall>s\<in>set rest. s < next_slot w \<and>
      (pending_removal (slot_heap w s) \<or> s \<in> set (slots (impls w a)))"
    by simp_all
  from emit_loop_append [OF assms(11)] obtain nc1' c1 v1 c2 where
    p: "emit_loop P ?runb pre False w1 = Inr (Normal, nc1', c1, v1)"
    and q: "emit_loop P ?runb (sp # rest) nc1' v1 = Inr (oc, nc', c2, w')"
    and c: "called = c1 @ c2" by blast
  from p assms(5) have e: "v1 = w" "c1 = called1" by simp_all
  have q': "emit_loop P ?runb (sp # rest) nc1' w = Inr (oc, nc', c2, w')" using q e by simp
  have m: "c2 = [sp] \<and> (\<forall>s\<in>set rest. pending_removal (slot_heap w' s))"
    using wf aw rest sp assms(6,7,8,9,10) q' by (rule loop_after_disconnect_all)
  then have 1: "called = called1 @ [sp]" using c e by simp
  have 2: "fst (snd r) = called1 @ [sp]" if "emit_n (Suc n) P g0 w0 = Inr r" for r
    using that assms(4,11) 1
    by (cases r) (auto simp: operator_call_def split: sum.splits outcome.splits)
  show ?thesis using 1 2 m by blast
qed

lemma snapshot_loop_block_first:
  "\<exists>w'. emit_loop block_first_program
      (run_body (\<lambda>g w. untraced (emit_n 0 block_first_program g w))) [2, 1, 0] False
      snapshot_world = Inr (Normal, False, [2], w')"
  by (simp add: snapshot_world_def three_slot_world_def block_first_program_def op_defs
        empty_world_def run_defs lock_slot_def Let_def)

lemma snapshot_loop_move_destination:
  "\<exists>w'. emit_loop move_destination_program
      (run_body (\<lambda>g w. untraced (emit_n 0 move_destination_program g w))) [2, 1, 0] False
      snapshot_world = Inr (Normal, False, [2], w')"
  by (simp add: snapshot_world_def three_slot_world_def move_destination_program_def op_defs
        empty_world_def run_defs Let_def)

lemma three_slot_world_simps:
  "sigs three_slot_world 0 = Some 0" "next_impl three_slot_world = 1"
  by (simp_all add: three_slot_world_def op_defs empty_world_def Let_def)

theorem C9_disconnect_all_in_callback_witness:
  "emit_begin 0 three_slot_world = Some ([2, 1, 0], snapshot_world) \<and>
   fst (slot_guard 2 snapshot_world) = Run \<and>
   func (slot_heap snapshot_world 2) = Plain 3 \<and>
   block_first_program 3 snapshot_world = [ConnBlock 1 True] @ DisconnectAll 0 # [] \<and>
   (\<exists>w'. emit_loop block_first_program
      (run_body (\<lambda>g w. untraced (emit_n 0 block_first_program g w))) [2, 1, 0] False
      snapshot_world = Inr (Normal, False, [2], w') \<and>
      pending_removal (slot_heap w' 1) \<and> pending_removal (slot_heap w' 0)) \<and>
   move_destination_program 3 snapshot_world = [SigMoveCtor 1 0] @ DisconnectAll 1 # [] \<and>
   (\<exists>w'. emit_loop move_destination_program
      (run_body (\<lambda>g w. untraced (emit_n 0 move_destination_program g w))) [2, 1, 0] False
      snapshot_world = Inr (Normal, False, [2], w') \<and>
      pending_removal (slot_heap w' 1) \<and> pending_removal (slot_heap w' 0))"
proof -
  let ?gw = "snd (snd (slot_guard 2 snapshot_world))"
  let ?cw = "call_world (func (slot_heap snapshot_world 2)) ?gw"
  have cw: "?cw = ?gw" by (simp add: snapshot_world_simps call_world_def)
  have b: "emit_begin 0 three_slot_world = Some ([] @ 2 # [1, 0], snapshot_world)"
    using three_slot_begin by simp
  have c: "func (slot_heap snapshot_world 2) = Plain 3 \<or>
      func (slot_heap snapshot_world 2) = RawMember 0 3 \<or>
      func (slot_heap snapshot_world 2) = SharedMember (Some 0) 3 \<and> obj_refs snapshot_world 0 \<noteq> 0"
    by (simp add: snapshot_world_simps)
  have sg: "sigs ?gw 0 = Some 0" by (simp add: slot_guard_fields snapshot_world_simps)
  have A: "\<exists>w'. emit_loop block_first_program
      (run_body (\<lambda>g w. untraced (emit_n 0 block_first_program g w))) [2, 1, 0] False
      snapshot_world = Inr (Normal, False, [2], w') \<and>
      pending_removal (slot_heap w' 1) \<and> pending_removal (slot_heap w' 0)"
  proof -
    let ?P = block_first_program
    let ?R = "run_body (\<lambda>g w. untraced (emit_n 0 ?P g w))"
    let ?v = "exec (ConnBlock 1 True) ?gw"
    from snapshot_loop_block_first obtain w' where
      l: "emit_loop ?P ?R ([] @ 2 # [1, 0]) False snapshot_world = Inr (Normal, False, [2], w')"
      by auto
    have p: "emit_loop ?P ?R [] False snapshot_world = Inr (Normal, False, [], snapshot_world)"
      by simp
    have body: "?P 3 ?cw = [ConnBlock 1 True] @ DisconnectAll 0 # []"
      by (simp add: block_first_program_def)
    have r: "?R [ConnBlock 1 True] ?cw = Inr (Normal, ?v)" by (simp add: cw)
    have g: "sigs ?v 0 = Some 0" using sg by (simp add: block_def split: option.splits)
    from C9_disconnect_all_in_callback [OF three_slot_world_inv(1) three_slot_world_simps(1) _ b p
        snapshot_guard c body r g l]
    show ?thesis using l by (auto simp: three_slot_world_simps)
  qed
  have B: "\<exists>w'. emit_loop move_destination_program
      (run_body (\<lambda>g w. untraced (emit_n 0 move_destination_program g w))) [2, 1, 0] False
      snapshot_world = Inr (Normal, False, [2], w') \<and>
      pending_removal (slot_heap w' 1) \<and> pending_removal (slot_heap w' 0)"
  proof -
    let ?P = move_destination_program
    let ?R = "run_body (\<lambda>g w. untraced (emit_n 0 ?P g w))"
    let ?v = "exec (SigMoveCtor 1 0) ?gw"
    from snapshot_loop_move_destination obtain w' where
      l: "emit_loop ?P ?R ([] @ 2 # [1, 0]) False snapshot_world = Inr (Normal, False, [2], w')"
      by auto
    have p: "emit_loop ?P ?R [] False snapshot_world = Inr (Normal, False, [], snapshot_world)"
      by simp
    have body: "?P 3 ?cw = [SigMoveCtor 1 0] @ DisconnectAll 1 # []"
      by (simp add: move_destination_program_def)
    have r: "?R [SigMoveCtor 1 0] ?cw = Inr (Normal, ?v)" by (simp add: cw)
    have g: "sigs ?v 1 = Some 0" using sg by (simp add: sig_move_ctor_def)
    from C9_disconnect_all_in_callback [OF three_slot_world_inv(1) three_slot_world_simps(1) _ b p
        snapshot_guard c body r g l]
    show ?thesis using l by (auto simp: three_slot_world_simps)
  qed
  show ?thesis
    using A B three_slot_begin snapshot_guard snapshot_world_simps(5)
    by (simp add: block_first_program_def move_destination_program_def)
qed

section \<open>Emissions whose callbacks leave the library alone\<close>

lemma retain_all_count: "retain_all ls r x = r x + count_list ls x"
  by (induction ls arbitrary: r) auto

lemma release_all_count: "release_all ls r x = r x - count_list ls x"
  by (induction ls arbitrary: r) auto

lemma release_retain: "release_all ls (retain_all ls r) = r"
  by (simp add: fun_eq_iff release_all_count retain_all_count)

lemma distinct_insert_by: "distinct (insert_by lt x ys) = (x \<notin> set ys \<and> distinct ys)"
  by (induction ys) (auto simp: set_insert_by)

lemma distinct_stable_sort: "distinct (stable_sort lt xs) = distinct xs"
  by (induction xs) (auto simp: stable_sort_def distinct_insert_by set_stable_sort [unfolded stable_sort_def])

lemma order_inv_distinct: "order_inv w \<Longrightarrow> distinct (slots (impls w a))"
proof -
  have "sorted_wrt (\<lambda>x y. f x = f y \<longrightarrow> x < y) xs \<Longrightarrow> distinct xs" for f :: "nat \<Rightarrow> int" and xs
    by (induction xs) auto
  from this [of "\<lambda>x. priority (slot_heap w x)" "slots (impls w a)"]
  show "order_inv w \<Longrightarrow> distinct (slots (impls w a))"
    by (simp add: order_inv_def)
qed

lemma inert_body: "set acts \<subseteq> {Throw} \<Longrightarrow> \<exists>oc. run_body emitf acts w = Inr (oc, w)"
  by (cases acts) auto

lemma inert_call:
  assumes "inert_program P"
  shows "catch_all (call_func P (run_body emitf) f w) = Inr (Normal, w)"
proof -
  have b: "\<exists>oc. run_body emitf (P k v) v = Inr (oc, v)" for k v
    using assms by (intro inert_body) (simp add: inert_program_def)
  show ?thesis
  proof (cases f)
    case (Plain k)
    then show ?thesis using b [of k w] by (auto simp: call_func_def catch_all_def)
  next
    case (RawMember ob k)
    then show ?thesis using b [of k w] by (auto simp: call_func_def catch_all_def)
  next
    case (SharedMember wk k)
    show ?thesis
    proof (cases wk)
      case None
      then show ?thesis using SharedMember by (simp add: call_func_def catch_all_def)
    next
      case (Some ob)
      let ?w1 = "w\<lparr>obj_refs := (obj_refs w)(ob := Suc (obj_refs w ob))\<rparr>"
      from b [of k ?w1] obtain oc where "run_body emitf (P k ?w1) ?w1 = Inr (oc, ?w1)" by blast
      then show ?thesis using SharedMember Some
        by (simp add: call_func_def catch_all_def Let_def)
    qed
  qed
qed

lemma guard_cong:
  assumes "slot_heap v s = slot_heap w s" "obj_refs v = obj_refs w"
  shows "fst (slot_guard s v) = fst (slot_guard s w)"
    "fst (snd (slot_guard s v)) = fst (snd (slot_guard s w))"
    "slot_heap (snd (snd (slot_guard s v))) s = slot_heap (snd (snd (slot_guard s w))) s"
proof -
  have e: "tracked_expired v (slot_heap w s) = tracked_expired w (slot_heap w s)"
    "is_callable v (slot_heap w s) = is_callable w (slot_heap w s)"
    using assms(2) by (auto simp: is_callable_def tracked_expired_def split: option.splits)
  show "fst (slot_guard s v) = fst (slot_guard s w)"
    "fst (snd (slot_guard s v)) = fst (snd (slot_guard s w))"
    "slot_heap (snd (snd (slot_guard s v))) s = slot_heap (snd (snd (slot_guard s w))) s"
    using assms(1) e
    by (auto simp: slot_guard_def try_acquire_execution_def store_pending_def Let_def)
qed

lemma inert_loop_Cons:
  assumes "inert_program P"
  shows "emit_loop P (run_body emitf) (sp # rest) nc w =
     (case emit_loop P (run_body emitf) rest (nc \<or> fst (snd (slot_guard sp w)))
             (snd (snd (slot_guard sp w))) of
        Inl e \<Rightarrow> Inl e
      | Inr (oc, nc', called, w') \<Rightarrow>
          Inr (oc, nc', (if fst (slot_guard sp w) = Run then sp # called else called), w'))"
proof -
  obtain d flag gw where g: "slot_guard sp w = (d, flag, gw)" by (cases "slot_guard sp w") auto
  show ?thesis
  proof (cases d)
    case Skip
    then show ?thesis using g by (auto split: sum.splits)
  next
    case Run
    then show ?thesis using g inert_call [OF assms, of emitf "func (slot_heap gw sp)" gw]
      by (auto split: sum.splits)
  qed
qed

lemma inert_loop:
  assumes "inert_program P"
  shows "distinct ls \<Longrightarrow>
     \<exists>nc' w'. emit_loop P (run_body emitf) ls nc w
                = Inr (Normal, nc', filter (\<lambda>s. fst (slot_guard s w) = Run) ls, w') \<and>
        sigs w' = sigs w \<and> impls w' = impls w \<and> obj_refs w' = obj_refs w \<and>
        slot_refs w' = slot_refs w \<and> conns w' = conns w \<and>
        (\<forall>x. slot_heap w' x =
           (if x \<in> set ls then slot_heap (snd (snd (slot_guard x w))) x else slot_heap w x)) \<and>
        (nc' = (nc \<or> (\<exists>x\<in>set ls. fst (snd (slot_guard x w)))))"
proof (induction ls arbitrary: nc w)
  case Nil show ?case by simp
next
  case (Cons sp rest)
  let ?gw = "snd (snd (slot_guard sp w))"
  let ?nc = "nc \<or> fst (snd (slot_guard sp w))"
  have d: "distinct rest" "sp \<notin> set rest" using Cons.prems by simp_all
  from Cons.IH [OF d(1), of ?nc ?gw] obtain nc' w' where
    l: "emit_loop P (run_body emitf) rest ?nc ?gw
          = Inr (Normal, nc', filter (\<lambda>s. fst (slot_guard s ?gw) = Run) rest, w')"
    and f: "sigs w' = sigs ?gw" "impls w' = impls ?gw" "obj_refs w' = obj_refs ?gw"
      "slot_refs w' = slot_refs ?gw" "conns w' = conns ?gw"
    and h: "\<forall>x. slot_heap w' x =
           (if x \<in> set rest then slot_heap (snd (snd (slot_guard x ?gw))) x else slot_heap ?gw x)"
    and n: "nc' = (?nc \<or> (\<exists>x\<in>set rest. fst (snd (slot_guard x ?gw))))" by blast
  have c: "fst (slot_guard x ?gw) = fst (slot_guard x w) \<and>
      fst (snd (slot_guard x ?gw)) = fst (snd (slot_guard x w)) \<and>
      slot_heap (snd (snd (slot_guard x ?gw))) x = slot_heap (snd (snd (slot_guard x w))) x"
    if "x \<in> set rest" for x
  proof -
    have "x \<noteq> sp" using that d(2) by auto
    then have a: "slot_heap ?gw x = slot_heap w x" by (simp add: slot_guard_slot)
    have b: "obj_refs ?gw = obj_refs w" by (simp add: slot_guard_fields)
    show ?thesis using guard_cong [OF a b] by simp
  qed
  have fl: "filter (\<lambda>s. fst (slot_guard s ?gw) = Run) rest
      = filter (\<lambda>s. fst (slot_guard s w) = Run) rest"
    using c by (intro filter_cong) auto
  have e: "emit_loop P (run_body emitf) (sp # rest) nc w
      = Inr (Normal, nc', filter (\<lambda>s. fst (slot_guard s w) = Run) (sp # rest), w')"
    using inert_loop_Cons [OF assms, of emitf sp rest nc w] l fl by simp
  have f': "sigs w' = sigs w" "impls w' = impls w" "obj_refs w' = obj_refs w"
      "slot_refs w' = slot_refs w" "conns w' = conns w"
    using f by (simp_all add: slot_guard_fields)
  have h': "slot_heap w' x =
      (if x \<in> set (sp # rest) then slot_heap (snd (snd (slot_guard x w))) x else slot_heap w x)"
    for x
  proof (cases "x \<in> set rest")
    case True
    then show ?thesis using h c [OF True] by simp
  next
    case False
    then have "slot_heap w' x = slot_heap ?gw x" using h by simp
    then show ?thesis using False by (cases "x = sp") (simp_all add: slot_guard_slot)
  qed
  have n': "nc' = (nc \<or> (\<exists>x\<in>set (sp # rest). fst (snd (slot_guard x w))))"
    using n c by auto
  show ?case using e f' h' n' by blast
qed

lemma snapshot_of_eq:
  assumes "sigs w g = Some a"
  shows "snapshot_of g w =
     (if dirty (impls w a)
      then stable_sort (higher_priority w)
             (filter (\<lambda>s. \<not> pending_removal (slot_heap w s)) (slots (impls w a)))
      else slots (impls w a))"
  using assms
  by (auto simp: snapshot_of_def emit_begin_def Let_def cleanup_and_resort_simps stable_sort_def)

lemma snapshot_of_set:
  assumes "sigs w g = Some a"
  shows "set (snapshot_of g w) =
     {x \<in> set (slots (impls w a)). dirty (impls w a) \<longrightarrow> \<not> pending_removal (slot_heap w x)}"
  using assms by (auto simp: snapshot_of_eq set_stable_sort)

lemma snapshot_of_distinct:
  assumes "sigs w g = Some a" "distinct (slots (impls w a))"
  shows "distinct (snapshot_of g w)"
  using assms by (simp add: snapshot_of_eq distinct_stable_sort)

lemma emit_begin_snapshot_of:
  "emit_begin g w = Some (ls, w1) \<Longrightarrow> ls = snapshot_of g w"
  by (simp add: snapshot_of_def)

lemma emit_begin_slot_refs:
  assumes "emit_begin g w = Some (ls, w1)"
  shows "\<exists>r. slot_refs w1 = retain_all ls r \<and>
           (\<forall>x. \<not> pending_removal (slot_heap w x) \<longrightarrow> r x = slot_refs w x)"
proof -
  from assms obtain a w0 where
    w1: "w1 = w0\<lparr>slot_refs := retain_all ls (slot_refs w0)\<rparr>" and
    w0: "w0 = (if dirty (impls w a) then cleanup_and_resort a w else w)"
    by (rule emit_begin_cases)
  have "\<forall>x. \<not> pending_removal (slot_heap w x) \<longrightarrow> slot_refs w0 x = slot_refs w x"
    by (auto simp: w0 cleanup_and_resort_def cleanup_slots_locked_def Let_def release_all_count
          count_list_0_iff)
  then show ?thesis using w1 by auto
qed

lemma emit_begin_impls:
  assumes "emit_begin g w = Some (ls, w1)" "sigs w g = Some a"
  shows "slots (impls w1 a) = ls"
  using snapshot_ahead_begin [OF assms(1)] emit_begin_fields(5) [OF assms(1)] assms(2) by auto

lemma inert_emission:
  assumes "inert_program P" and "sigs w g = Some a" and "distinct (slots (impls w a))"
  shows "\<exists>w'. emit_n (Suc n) P g w
            = Inr (Normal, filter (\<lambda>s. fst (slot_guard s w) = Run) (snapshot_of g w), w') \<and>
         sigs w' = sigs w \<and> obj_refs w' = obj_refs w \<and> conns w' = conns w \<and>
         slots (impls w' a) = snapshot_of g w \<and>
         (\<forall>x. slot_heap w' x =
            (if x \<in> set (snapshot_of g w) then slot_heap (snd (snd (slot_guard x w))) x
             else slot_heap w x)) \<and>
         (\<forall>x. \<not> pending_removal (slot_heap w x) \<longrightarrow> slot_refs w' x = slot_refs w x)"
proof (cases "emit_begin g w")
  case None
  then have e: "slots (impls w a) = []"
    using assms(2) by (auto simp: emit_begin_def Let_def split: if_splits)
  have s: "snapshot_of g w = []" using None by (simp add: snapshot_of_def)
  have "emit_n (Suc n) P g w = Inr (Normal, [], w)" using None by (simp add: operator_call_def)
  then show ?thesis using s e by simp
next
  case (Some p)
  then obtain ls w1 where b: "emit_begin g w = Some (ls, w1)" by (cases p) auto
  let ?R = "run_body (\<lambda>g w. untraced (emit_n n P g w))"
  have ls: "ls = snapshot_of g w" using b by (rule emit_begin_snapshot_of)
  have dl: "distinct ls" unfolding ls using assms(2,3) by (rule snapshot_of_distinct)
  have f1: "slot_heap w1 = slot_heap w" "sigs w1 = sigs w" "obj_refs w1 = obj_refs w"
    "conns w1 = conns w"
    using emit_begin_fields [OF b] by simp_all
  have i1: "slots (impls w1 a) = ls" using b assms(2) by (rule emit_begin_impls)
  from emit_begin_slot_refs [OF b] obtain r where
    r: "slot_refs w1 = retain_all ls r"
    and r': "\<forall>x. \<not> pending_removal (slot_heap w x) \<longrightarrow> r x = slot_refs w x" by blast
  from inert_loop [OF assms(1) dl, of "\<lambda>g w. untraced (emit_n n P g w)" False w1]
  obtain nc' w2 where
    l: "emit_loop P ?R ls False w1
          = Inr (Normal, nc', filter (\<lambda>s. fst (slot_guard s w1) = Run) ls, w2)"
    and f2: "sigs w2 = sigs w1" "impls w2 = impls w1" "obj_refs w2 = obj_refs w1"
      "slot_refs w2 = slot_refs w1" "conns w2 = conns w1"
    and h2: "\<forall>x. slot_heap w2 x =
           (if x \<in> set ls then slot_heap (snd (snd (slot_guard x w1))) x else slot_heap w1 x)"
    by blast
  have c: "fst (slot_guard x w1) = fst (slot_guard x w) \<and>
      slot_heap (snd (snd (slot_guard x w1))) x = slot_heap (snd (snd (slot_guard x w))) x" for x
    using guard_cong [of w1 x w] f1 by simp
  have fl: "filter (\<lambda>s. fst (slot_guard s w1) = Run) ls
      = filter (\<lambda>s. fst (slot_guard s w) = Run) ls"
    using c by (intro filter_cong) auto
  have sg: "sigs w2 g = Some a" using f2 f1 assms(2) by simp
  have "\<exists>w3. emit_end g ls nc' w2 = Inr w3"
    using sg by (cases nc') (simp_all add: emit_end_def Let_def)
  then obtain w3 where e: "emit_end g ls nc' w2 = Inr w3" by blast
  have f3: "slot_heap w3 = slot_heap w2" "sigs w3 = sigs w2" "obj_refs w3 = obj_refs w2"
    "conns w3 = conns w2" "slots (impls w3 a) = slots (impls w2 a)"
    using emit_end_fields [OF e] by simp_all
  have r3: "slot_refs w3 = release_all ls (slot_refs w2)"
    using e sg by (auto simp: emit_end_def set_dirty_def Let_def split: if_splits)
  then have r3': "slot_refs w3 = r" using f2 r by (simp add: release_retain)
  have o: "emit_n (Suc n) P g w
      = Inr (Normal, filter (\<lambda>s. fst (slot_guard s w) = Run) (snapshot_of g w), w3)"
    using b l e fl ls by (simp add: operator_call_def)
  have h3: "slot_heap w3 x =
      (if x \<in> set (snapshot_of g w) then slot_heap (snd (snd (slot_guard x w))) x
       else slot_heap w x)" for x
    using h2 c f1 f3 ls by simp
  show ?thesis using o f1 f2 f3 i1 h3 r3' r' ls by auto
qed

section \<open>A skipped single-shot slot keeps its execution\<close>

lemma guard_skip_unchanged:
  "\<not> is_callable w (slot_heap w sp) \<Longrightarrow>
   \<not> (has_tracked_object (slot_heap w sp) \<and> tracked_expired w (slot_heap w sp)) \<Longrightarrow>
   slot_guard sp w = (Skip, False, w)"
  by (simp add: slot_guard_def)

lemma count_filter_distinct:
  "distinct xs \<Longrightarrow> x \<in> set xs \<Longrightarrow> p x \<Longrightarrow> count_list (filter p xs) x = 1"
  by (induction xs) (auto simp: count_list_0_iff)

lemma skip_emission:
  assumes "inert_program P" and "order_inv w" and "sigs w g = Some a"
    and "\<not> is_callable w (slot_heap w s)"
  shows "\<exists>called1 w1. emit_n (Suc n) P g w = Inr (Normal, called1, w1) \<and> s \<notin> set called1 \<and>
           executed (slot_heap w1 s) = executed (slot_heap w s)"
proof -
  have d: "distinct (slots (impls w a))" using assms(2) by (rule order_inv_distinct)
  from inert_emission [OF assms(1,3) d, of n] obtain w1 where
    e: "emit_n (Suc n) P g w
          = Inr (Normal, filter (\<lambda>s. fst (slot_guard s w) = Run) (snapshot_of g w), w1)"
    and h: "\<forall>x. slot_heap w1 x =
            (if x \<in> set (snapshot_of g w) then slot_heap (snd (snd (slot_guard x w))) x
             else slot_heap w x)" by blast
  have k: "fst (slot_guard s w) = Skip"
    "executed (slot_heap (snd (snd (slot_guard s w))) s) = executed (slot_heap w s)"
    using guard_not_callable [OF assms(4)] by simp_all
  have "s \<notin> set (filter (\<lambda>s. fst (slot_guard s w) = Run) (snapshot_of g w))" using k(1) by simp
  moreover have "executed (slot_heap w1 s) = executed (slot_heap w s)" using h k(2) by simp
  ultimately show ?thesis using e by blast
qed

lemma blocked_then_unblocked:
  assumes P: "inert_program P" and oi: "order_inv w" and g: "sigs w g = Some a"
    and ss: "single_shot (slot_heap w s)" and ne: "\<not> executed (slot_heap w s)"
    and bl: "blocked (slot_heap w s)" and np: "\<not> pending_removal (slot_heap w s)"
    and nx: "\<not> (has_tracked_object (slot_heap w s) \<and> tracked_expired w (slot_heap w s))"
    and mem: "s \<in> set (slots (impls w a))" and lk: "lock_slot w c = Some s"
  shows "\<exists>called1 w1 called2 w2 called3 w3.
     emit_n (Suc n) P g w = Inr (Normal, called1, w1) \<and> s \<notin> set called1 \<and>
     slot_heap w1 s = slot_heap w s \<and> s \<in> set (slots (impls w1 a)) \<and>
     is_callable (unblock c w1) (slot_heap (unblock c w1) s) \<and>
     emit_n (Suc n) P g (unblock c w1) = Inr (Normal, called2, w2) \<and>
     count_list called2 s = 1 \<and> executed (slot_heap w2 s) \<and>
     emit_n (Suc n) P g w2 = Inr (Normal, called3, w3) \<and> s \<notin> set called3"
proof -
  have d: "distinct (slots (impls w a))" using oi by (rule order_inv_distinct)
  have nc: "\<not> is_callable w (slot_heap w s)" using bl by (simp add: is_callable_def)
  have gs: "slot_guard s w = (Skip, False, w)" using nc nx by (rule guard_skip_unchanged)
  from inert_emission [OF P g d, of n] obtain w1 where
    e1: "emit_n (Suc n) P g w
          = Inr (Normal, filter (\<lambda>s. fst (slot_guard s w) = Run) (snapshot_of g w), w1)"
    and f1: "sigs w1 = sigs w" "obj_refs w1 = obj_refs w"
      "slots (impls w1 a) = snapshot_of g w"
    and h1: "\<forall>x. slot_heap w1 x =
            (if x \<in> set (snapshot_of g w) then slot_heap (snd (snd (slot_guard x w))) x
             else slot_heap w x)"
    and r1: "\<forall>x. \<not> pending_removal (slot_heap w x) \<longrightarrow> slot_refs w1 x = slot_refs w x"
    by blast
  let ?c1 = "filter (\<lambda>s. fst (slot_guard s w) = Run) (snapshot_of g w)"
  have a1: "s \<notin> set ?c1" using gs by simp
  have a2: "slot_heap w1 s = slot_heap w s" using h1 gs by simp
  have a3: "s \<in> set (slots (impls w1 a))" using f1(3) snapshot_of_set [OF g] mem np by simp
  have d1: "distinct (slots (impls w1 a))" using f1(3) snapshot_of_distinct [OF g d] by simp
  have lk1: "lock_slot w1 c = Some s"
    using lk r1 np by (auto simp: lock_slot_def split: option.splits if_splits)
  let ?u = "unblock c w1"
  have u: "?u = w1\<lparr>slot_heap := (slot_heap w1)(s := (slot_heap w1 s)\<lparr>blocked := False\<rparr>)\<rparr>"
    using lk1 by (simp add: unblock_def block_def)
  have fu: "sigs ?u g = Some a" "slots (impls ?u a) = slots (impls w1 a)"
    "obj_refs ?u = obj_refs w" "slot_heap ?u s = (slot_heap w s)\<lparr>blocked := False\<rparr>"
    using g f1 a2 by (simp_all add: u)
  have cu: "is_callable ?u (slot_heap ?u s)"
    using np nx fu(3,4)
    by (auto simp: is_callable_def has_tracked_object_def tracked_expired_def
          split: option.splits)
  have du: "distinct (slots (impls ?u a))" using d1 fu(2) by simp
  from inert_emission [OF P fu(1) du, of n] obtain w2 where
    e2: "emit_n (Suc n) P g ?u
          = Inr (Normal, filter (\<lambda>s. fst (slot_guard s ?u) = Run) (snapshot_of g ?u), w2)"
    and f2: "sigs w2 = sigs ?u" "slots (impls w2 a) = snapshot_of g ?u"
    and h2: "\<forall>x. slot_heap w2 x =
            (if x \<in> set (snapshot_of g ?u) then slot_heap (snd (snd (slot_guard x ?u))) x
             else slot_heap ?u x)"
    by blast
  let ?c2 = "filter (\<lambda>s. fst (slot_guard s ?u) = Run) (snapshot_of g ?u)"
  have su: "single_shot (slot_heap ?u s)" "\<not> executed (slot_heap ?u s)"
    "\<not> pending_removal (slot_heap ?u s)"
    using ss ne np fu(4) by simp_all
  have gu: "fst (slot_guard s ?u) = Run"
    "executed (slot_heap (snd (snd (slot_guard s ?u))) s)"
    using guard_callable_fresh [OF cu su(1,2)] by simp_all
  have mu: "s \<in> set (snapshot_of g ?u)"
    using snapshot_of_set [OF fu(1)] a3 fu(2) su(3) by simp
  have dsu: "distinct (snapshot_of g ?u)" using fu(1) du by (rule snapshot_of_distinct)
  have b1: "count_list ?c2 s = 1" using dsu mu gu(1) by (rule count_filter_distinct)
  have b2: "executed (slot_heap w2 s)" using h2 mu gu(2) by simp
  have ss2: "single_shot (slot_heap w2 s)" using h2 mu su(1) by (simp add: slot_guard_slot)
  have g2: "sigs w2 g = Some a" using f2(1) fu(1) by simp
  have d2: "distinct (slots (impls w2 a))" using f2(2) dsu by simp
  from inert_emission [OF P g2 d2, of n] obtain w3 where
    e3: "emit_n (Suc n) P g w2
          = Inr (Normal, filter (\<lambda>s. fst (slot_guard s w2) = Run) (snapshot_of g w2), w3)"
    by blast
  have "fst (slot_guard s w2) = Skip" using ss2 b2 by (rule guard_skip_executed)
  then have c1: "s \<notin> set (filter (\<lambda>s. fst (slot_guard s w2) = Run) (snapshot_of g w2))"
    by simp
  show ?thesis using e1 a1 a2 a3 cu e2 b1 b2 e3 c1 by blast
qed

lemma emit_loop_called_subset:
  "emit_loop P runb ls nc w = Inr (oc, nc', called, w') \<Longrightarrow> set called \<subseteq> set ls"
  using emit_loop_called [of P runb ls nc w oc nc' called w' "\<lambda>x y. True"] by simp

lemma loop_reaches:
  assumes d: "distinct (pre @ sp # rest)"
    and p: "emit_loop P runb pre nc u = Inr (oc1, nc1, called1, v)"
    and l: "emit_loop P runb (pre @ sp # rest) nc u = Inr (oc, nc', called, w')"
  shows "fst (slot_guard sp v) = Skip \<Longrightarrow> sp \<notin> set called"
    "fst (slot_guard sp v) = Run \<Longrightarrow> count_list called sp = 1"
proof -
  from emit_loop_append [OF l] obtain nc1' c1 v1 c2 where
    p': "emit_loop P runb pre nc u = Inr (Normal, nc1', c1, v1)"
    and q: "emit_loop P runb (sp # rest) nc1' v1 = Inr (oc, nc', c2, w')"
    and c: "called = c1 @ c2" by blast
  have v: "v1 = v" using p p' by simp
  have "set c1 \<subseteq> set pre" using p' by (rule emit_loop_called_subset)
  then have n1: "sp \<notin> set c1" using d by auto
  show "sp \<notin> set called" if "fst (slot_guard sp v) = Skip"
  proof -
    have "emit_loop P runb rest (nc1' \<or> fst (snd (slot_guard sp v))) (snd (snd (slot_guard sp v)))
        = Inr (oc, nc', c2, w')"
      using q v emit_loop_Cons_skip [OF that, of P runb rest nc1'] by simp
    then have "set c2 \<subseteq> set rest" by (rule emit_loop_called_subset)
    then show ?thesis using n1 c d by auto
  qed
  show "count_list called sp = 1" if "fst (slot_guard sp v) = Run"
  proof -
    have q': "emit_loop P runb (sp # rest) nc1' v = Inr (oc, nc', c2, w')" using q v by simp
    from emit_loop_Cons_run [OF that q'] obtain oc2 :: outcome and w2 called2 where
      r: "emit_loop P runb rest (nc1' \<or> fst (snd (slot_guard sp v))) w2
            = Inr (oc, nc', called2, w')"
      and c2: "c2 = sp # called2" by blast
    have "set called2 \<subseteq> set rest" using r by (rule emit_loop_called_subset)
    then have "sp \<notin> set called2" using d by auto
    then show ?thesis using n1 c c2 by (simp add: count_list_0_iff)
  qed
qed

text \<open>
  Claim C10. When the loop reaches a single-shot record whose executed flag is false and
  that is not callable (blocked, pending-removal, or with an expired tracked reference),
  it skips it, appends no call and leaves the executed flag false: callability is tested
  before \<open>try_acquire_execution\<close>. Unless the tracked reference is expired, the skip
  changes nothing at all, so the record stays unflagged and in the slot list. \<open>block\<close>
  and \<open>unblock\<close> never touch the executed flag, and \<open>unblock\<close> makes a blocked record
  callable again when it is neither flagged nor expired. When the loop reaches such a
  record callable, it calls it and sets the flag, after which the loop skips it.

  For the loop of an emission with any callables, over a snapshot without duplicates:
  if the loop reaches, in a world \<open>v\<close>, a single-shot record whose executed flag is
  false, then the record is not among the records the loop called when it is not callable
  in \<open>v\<close>, and it is among them exactly once when it is callable in \<open>v\<close>.

  For whole emissions, with callables that do nothing to the library, in a world whose
  slot lists are in order (as they are in every reachable world): an emission on a signal
  that finds a single-shot record not callable returns without calling it and leaves its
  executed flag false. If the record is in the slot list of the signal, blocked, not
  flagged and not expired, that emission leaves the record as it was and in the list;
  after \<open>unblock\<close> through a handle of the record it is callable, the next emission
  calls it exactly once and sets its executed flag, and the emission after that does not
  call it.
\<close>

theorem C10_skip_keeps_single_shot:
  "(single_shot (slot_heap w sp) \<and> \<not> executed (slot_heap w sp) \<and>
    \<not> is_callable w (slot_heap w sp) \<longrightarrow>
      fst (slot_guard sp w) = Skip \<and> \<not> executed (slot_heap (snd (snd (slot_guard sp w))) sp) \<and>
      history (snd (snd (slot_guard sp w))) = history w) \<and>
   (\<not> is_callable w (slot_heap w sp) \<and>
    \<not> (has_tracked_object (slot_heap w sp) \<and> tracked_expired w (slot_heap w sp)) \<longrightarrow>
      slot_guard sp w = (Skip, False, w)) \<and>
   executed (slot_heap (block c b w) s) = executed (slot_heap w s) \<and>
   executed (slot_heap (unblock c w) s) = executed (slot_heap w s) \<and>
   (lock_slot w c = Some s \<and> \<not> pending_removal (slot_heap w s) \<and>
    \<not> (has_tracked_object (slot_heap w s) \<and> tracked_expired w (slot_heap w s)) \<longrightarrow>
      is_callable (unblock c w) (slot_heap (unblock c w) s)) \<and>
   (single_shot (slot_heap w sp) \<and> \<not> executed (slot_heap w sp) \<and>
    is_callable w (slot_heap w sp) \<longrightarrow>
      fst (slot_guard sp w) = Run \<and> executed (slot_heap (snd (snd (slot_guard sp w))) sp) \<and>
      history (snd (snd (slot_guard sp w))) = history w @ [Invoked sp] \<and>
      fst (slot_guard sp (snd (snd (slot_guard sp w)))) = Skip) \<and>
   (distinct (pre @ sp # rest) \<and>
    emit_loop P runb pre nc u = Inr (oc1, nc1, called1, v) \<and>
    emit_loop P runb (pre @ sp # rest) nc u = Inr (oc, nc', called, w') \<and>
    single_shot (slot_heap v sp) \<and> \<not> executed (slot_heap v sp) \<longrightarrow>
      (\<not> is_callable v (slot_heap v sp) \<longrightarrow> sp \<notin> set called) \<and>
      (is_callable v (slot_heap v sp) \<longrightarrow> count_list called sp = 1)) \<and>
   (inert_program P \<and> order_inv w \<and> sigs w g = Some a \<and>
    single_shot (slot_heap w sp) \<and> \<not> executed (slot_heap w sp) \<and>
    \<not> is_callable w (slot_heap w sp) \<longrightarrow>
      (\<exists>called1 w1. emit_n (Suc n) P g w = Inr (Normal, called1, w1) \<and> sp \<notin> set called1 \<and>
         \<not> executed (slot_heap w1 sp))) \<and>
   (inert_program P \<and> order_inv w \<and> sigs w g = Some a \<and>
    single_shot (slot_heap w sp) \<and> \<not> executed (slot_heap w sp) \<and>
    blocked (slot_heap w sp) \<and> \<not> pending_removal (slot_heap w sp) \<and>
    \<not> (has_tracked_object (slot_heap w sp) \<and> tracked_expired w (slot_heap w sp)) \<and>
    sp \<in> set (slots (impls w a)) \<and> lock_slot w h = Some sp \<longrightarrow>
      (\<exists>called1 w1 called2 w2 called3 w3.
         emit_n (Suc n) P g w = Inr (Normal, called1, w1) \<and> sp \<notin> set called1 \<and>
         slot_heap w1 sp = slot_heap w sp \<and> sp \<in> set (slots (impls w1 a)) \<and>
         is_callable (unblock h w1) (slot_heap (unblock h w1) sp) \<and>
         emit_n (Suc n) P g (unblock h w1) = Inr (Normal, called2, w2) \<and>
         count_list called2 sp = 1 \<and> executed (slot_heap w2 sp) \<and>
         emit_n (Suc n) P g w2 = Inr (Normal, called3, w3) \<and> sp \<notin> set called3))"
proof -
  have 1: "single_shot (slot_heap w sp) \<and> \<not> executed (slot_heap w sp) \<and>
    \<not> is_callable w (slot_heap w sp) \<longrightarrow>
      fst (slot_guard sp w) = Skip \<and> \<not> executed (slot_heap (snd (snd (slot_guard sp w))) sp) \<and>
      history (snd (snd (slot_guard sp w))) = history w"
    using guard_not_callable [of w sp] by simp
  have 2: "\<not> is_callable w (slot_heap w sp) \<and>
    \<not> (has_tracked_object (slot_heap w sp) \<and> tracked_expired w (slot_heap w sp)) \<longrightarrow>
      slot_guard sp w = (Skip, False, w)"
    using guard_skip_unchanged [of w sp] by blast
  have 3: "executed (slot_heap (block c b w) s) = executed (slot_heap w s)"
    by (rule block_executed)
  have 4: "executed (slot_heap (unblock c w) s) = executed (slot_heap w s)"
    unfolding unblock_def by (rule block_executed)
  have 5: "lock_slot w c = Some s \<and> \<not> pending_removal (slot_heap w s) \<and>
    \<not> (has_tracked_object (slot_heap w s) \<and> tracked_expired w (slot_heap w s)) \<longrightarrow>
      is_callable (unblock c w) (slot_heap (unblock c w) s)"
    using unblock_callable [of w c s] by blast
  have "fst (slot_guard sp (snd (snd (slot_guard sp w)))) = Skip"
    if "single_shot (slot_heap w sp)" "executed (slot_heap (snd (snd (slot_guard sp w))) sp)"
    using that by (intro guard_skip_executed) (simp_all add: slot_guard_slot)
  then have 6: "single_shot (slot_heap w sp) \<and> \<not> executed (slot_heap w sp) \<and>
    is_callable w (slot_heap w sp) \<longrightarrow>
      fst (slot_guard sp w) = Run \<and> executed (slot_heap (snd (snd (slot_guard sp w))) sp) \<and>
      history (snd (snd (slot_guard sp w))) = history w @ [Invoked sp] \<and>
      fst (slot_guard sp (snd (snd (slot_guard sp w)))) = Skip"
    using guard_callable_fresh [of w sp] by blast
  have 9: "distinct (pre @ sp # rest) \<and>
    emit_loop P runb pre nc u = Inr (oc1, nc1, called1, v) \<and>
    emit_loop P runb (pre @ sp # rest) nc u = Inr (oc, nc', called, w') \<and>
    single_shot (slot_heap v sp) \<and> \<not> executed (slot_heap v sp) \<longrightarrow>
      (\<not> is_callable v (slot_heap v sp) \<longrightarrow> sp \<notin> set called) \<and>
      (is_callable v (slot_heap v sp) \<longrightarrow> count_list called sp = 1)"
    using loop_reaches [of pre sp rest P runb nc u oc1 nc1 called1 v oc nc' called w']
      guard_not_callable [of v sp] guard_callable_fresh [of v sp]
    by blast
  have 7: "inert_program P \<and> order_inv w \<and> sigs w g = Some a \<and>
    single_shot (slot_heap w sp) \<and> \<not> executed (slot_heap w sp) \<and>
    \<not> is_callable w (slot_heap w sp) \<longrightarrow>
      (\<exists>called1 w1. emit_n (Suc n) P g w = Inr (Normal, called1, w1) \<and> sp \<notin> set called1 \<and>
         \<not> executed (slot_heap w1 sp))"
    using skip_emission [of P w g a sp n] by auto
  have 8: "inert_program P \<and> order_inv w \<and> sigs w g = Some a \<and>
    single_shot (slot_heap w sp) \<and> \<not> executed (slot_heap w sp) \<and>
    blocked (slot_heap w sp) \<and> \<not> pending_removal (slot_heap w sp) \<and>
    \<not> (has_tracked_object (slot_heap w sp) \<and> tracked_expired w (slot_heap w sp)) \<and>
    sp \<in> set (slots (impls w a)) \<and> lock_slot w h = Some sp \<longrightarrow>
      (\<exists>called1 w1 called2 w2 called3 w3.
         emit_n (Suc n) P g w = Inr (Normal, called1, w1) \<and> sp \<notin> set called1 \<and>
         slot_heap w1 sp = slot_heap w sp \<and> sp \<in> set (slots (impls w1 a)) \<and>
         is_callable (unblock h w1) (slot_heap (unblock h w1) sp) \<and>
         emit_n (Suc n) P g (unblock h w1) = Inr (Normal, called2, w2) \<and>
         count_list called2 sp = 1 \<and> executed (slot_heap w2 sp) \<and>
         emit_n (Suc n) P g w2 = Inr (Normal, called3, w3) \<and> sp \<notin> set called3)"
    using blocked_then_unblocked [of P w g a sp h n] by blast
  show ?thesis
    apply (intro conjI)
            apply (rule 1)
           apply (rule 2)
          apply (rule 3)
         apply (rule 4)
        apply (rule 5)
       apply (rule 6)
      apply (rule 9)
     apply (rule 7)
    apply (rule 8)
    done
qed

lemma blocked_once_run:
  "\<exists>w1. run (Suc 0) quiet_program [ConnBlock 0 True, Emit 0] once_world = Inr (Normal, w1) \<and>
      history w1 = [] \<and> \<not> executed (slot_heap w1 0)"
  "\<exists>w2. run (Suc 0) quiet_program
           [ConnBlock 0 True, Emit 0, ConnBlock 0 False, Emit 0, Emit 0] once_world
         = Inr (Normal, w2) \<and> history w2 = [Invoked 0]"
  by (simp_all add: run_def once_world_def quiet_program_def op_defs empty_world_def run_defs
        lock_slot_def Let_def)

lemma blocked_once_simps:
  "sigs (exec (ConnBlock 0 True) once_world) 0 = Some 0"
  "single_shot (slot_heap (exec (ConnBlock 0 True) once_world) 0)"
  "\<not> executed (slot_heap (exec (ConnBlock 0 True) once_world) 0)"
  "blocked (slot_heap (exec (ConnBlock 0 True) once_world) 0)"
  "\<not> pending_removal (slot_heap (exec (ConnBlock 0 True) once_world) 0)"
  "\<not> has_tracked_object (slot_heap (exec (ConnBlock 0 True) once_world) 0)"
  "\<not> is_callable (exec (ConnBlock 0 True) once_world)
       (slot_heap (exec (ConnBlock 0 True) once_world) 0)"
  "slots (impls (exec (ConnBlock 0 True) once_world) 0) = [0]"
  "lock_slot (exec (ConnBlock 0 True) once_world)
     (conns (exec (ConnBlock 0 True) once_world) 0) = Some 0"
  "single_shot (slot_heap once_world 0)" "\<not> executed (slot_heap once_world 0)"
  "is_callable once_world (slot_heap once_world 0)"
  by (simp_all add: once_world_def op_defs empty_world_def lock_slot_def is_callable_def
        has_tracked_object_def Let_def)

lemma blocked_once_inv:
  "order_inv (exec (ConnBlock 0 True) once_world)" "inert_program quiet_program"
proof -
  have "well_formed once_world \<and> order_inv once_world"
    unfolding once_world_def
    by (simp add: well_formed_exec order_inv_exec well_formed_empty order_inv_empty
          del: exec.simps)
  then show "order_inv (exec (ConnBlock 0 True) once_world)" by (simp add: order_inv_exec del: exec.simps)
  show "inert_program quiet_program" by (simp add: inert_program_def quiet_program_def)
qed

theorem C10_skip_keeps_single_shot_witness:
  "inert_program quiet_program \<and> order_inv (exec (ConnBlock 0 True) once_world) \<and>
   blocked (slot_heap (exec (ConnBlock 0 True) once_world) 0) \<and>
   \<not> is_callable (exec (ConnBlock 0 True) once_world)
       (slot_heap (exec (ConnBlock 0 True) once_world) 0) \<and>
   slot_guard 0 (exec (ConnBlock 0 True) once_world)
     = (Skip, False, exec (ConnBlock 0 True) once_world) \<and>
   fst (slot_guard 0 once_world) = Run \<and>
   (\<exists>w'. emit_loop quiet_program (run_body (\<lambda>g w. untraced (emit_n 0 quiet_program g w)))
           ([] @ 0 # []) False once_world = Inr (Normal, True, [0], w')) \<and>
   count_list [0::nat] 0 = 1 \<and>
   (\<exists>called1 w1 called2 w2 called3 w3.
      emit_n (Suc 0) quiet_program 0 (exec (ConnBlock 0 True) once_world)
        = Inr (Normal, called1, w1) \<and> 0 \<notin> set called1 \<and>
      \<not> executed (slot_heap w1 0) \<and> 0 \<in> set (slots (impls w1 0)) \<and>
      emit_n (Suc 0) quiet_program 0 (unblock (conns (exec (ConnBlock 0 True) once_world) 0) w1)
        = Inr (Normal, called2, w2) \<and> count_list called2 0 = 1 \<and>
      emit_n (Suc 0) quiet_program 0 w2 = Inr (Normal, called3, w3) \<and> 0 \<notin> set called3) \<and>
   (\<exists>w2. run (Suc 0) quiet_program
           [ConnBlock 0 True, Emit 0, ConnBlock 0 False, Emit 0, Emit 0] once_world
         = Inr (Normal, w2) \<and> history w2 = [Invoked 0])"
proof -
  let ?bw = "exec (ConnBlock 0 True) once_world"
  note T = C10_skip_keeps_single_shot [where w = ?bw and sp = 0 and P = quiet_program
      and g = 0 and a = 0 and h = "conns ?bw 0" and n = 0]
  have A: "slot_guard 0 ?bw = (Skip, False, ?bw)"
    using T blocked_once_simps by (simp del: exec.simps)
  have B: "\<exists>called1 w1 called2 w2 called3 w3.
      emit_n (Suc 0) quiet_program 0 ?bw = Inr (Normal, called1, w1) \<and> 0 \<notin> set called1 \<and>
      \<not> executed (slot_heap w1 0) \<and> 0 \<in> set (slots (impls w1 0)) \<and>
      emit_n (Suc 0) quiet_program 0 (unblock (conns ?bw 0) w1) = Inr (Normal, called2, w2) \<and>
      count_list called2 0 = 1 \<and>
      emit_n (Suc 0) quiet_program 0 w2 = Inr (Normal, called3, w3) \<and> 0 \<notin> set called3"
  proof -
    have H: "inert_program quiet_program \<and> order_inv ?bw \<and> sigs ?bw 0 = Some 0 \<and>
      single_shot (slot_heap ?bw 0) \<and> \<not> executed (slot_heap ?bw 0) \<and>
      blocked (slot_heap ?bw 0) \<and> \<not> pending_removal (slot_heap ?bw 0) \<and>
      \<not> (has_tracked_object (slot_heap ?bw 0) \<and> tracked_expired ?bw (slot_heap ?bw 0)) \<and>
      0 \<in> set (slots (impls ?bw 0)) \<and> lock_slot ?bw (conns ?bw 0) = Some 0"
      using blocked_once_simps blocked_once_inv by (simp del: exec.simps)
    note T9 = T [THEN conjunct2, THEN conjunct2, THEN conjunct2, THEN conjunct2,
        THEN conjunct2, THEN conjunct2, THEN conjunct2, THEN conjunct2]
    from T9 H have "\<exists>called1 w1 called2 w2 called3 w3.
         emit_n (Suc 0) quiet_program 0 ?bw = Inr (Normal, called1, w1) \<and> 0 \<notin> set called1 \<and>
         slot_heap w1 0 = slot_heap ?bw 0 \<and> 0 \<in> set (slots (impls w1 0)) \<and>
         is_callable (unblock (conns ?bw 0) w1) (slot_heap (unblock (conns ?bw 0) w1) 0) \<and>
         emit_n (Suc 0) quiet_program 0 (unblock (conns ?bw 0) w1) = Inr (Normal, called2, w2) \<and>
         count_list called2 0 = 1 \<and> executed (slot_heap w2 0) \<and>
         emit_n (Suc 0) quiet_program 0 w2 = Inr (Normal, called3, w3) \<and> 0 \<notin> set called3"
      by blast
    then obtain called1 w1 called2 w2 called3 w3 where
      e: "emit_n (Suc 0) quiet_program 0 ?bw = Inr (Normal, called1, w1)" "0 \<notin> set called1"
      "0 \<in> set (slots (impls w1 0))"
      "emit_n (Suc 0) quiet_program 0 (unblock (conns ?bw 0) w1) = Inr (Normal, called2, w2)"
      "count_list called2 0 = 1"
      "emit_n (Suc 0) quiet_program 0 w2 = Inr (Normal, called3, w3)" "0 \<notin> set called3"
      and k: "slot_heap w1 0 = slot_heap ?bw 0"
      by blast
    have "\<not> executed (slot_heap w1 0)" using k blocked_once_simps(3) by (simp del: exec.simps)
    then show ?thesis using e by blast
  qed
  let ?R = "run_body (\<lambda>g w. untraced (emit_n 0 quiet_program g w))"
  have D: "\<exists>w'. emit_loop quiet_program ?R ([] @ 0 # []) False once_world
      = Inr (Normal, True, [0], w')"
    by (simp add: once_world_def quiet_program_def op_defs empty_world_def run_defs Let_def)
  then obtain w' where
    l: "emit_loop quiet_program ?R ([] @ 0 # []) False once_world = Inr (Normal, True, [0], w')"
    by blast
  have p: "emit_loop quiet_program ?R [] False once_world = Inr (Normal, False, [], once_world)"
    by simp
  have C: "fst (slot_guard 0 once_world) = Run \<and> count_list [0::nat] 0 = 1"
    using C10_skip_keeps_single_shot [where w = once_world and sp = 0 and pre = "[]"
        and rest = "[]" and P = quiet_program and runb = ?R and nc = False and u = once_world
        and ?oc1.0 = Normal and ?nc1.0 = False and ?called1.0 = "[]" and v = once_world
        and oc = Normal and nc' = True and called = "[0]" and w' = w']
      blocked_once_simps l p
    by simp
  show ?thesis using A B C D blocked_once_inv blocked_once_simps blocked_once_run(2)
    by (simp del: exec.simps emit_n.simps emit_loop.simps)
qed

end
